theory Spec2Isabelle
  imports Main "HOL-Library.Product_Lexorder"
begin

section \<open>Data model of \<open>minesweeper.py\<close>\<close>

text \<open>
  A cell is a Python tuple \<open>(i, j)\<close> of unbounded integers. A \<open>Sentence\<close> object has the
  attributes \<open>cells\<close> (a Python set, hence finite) and \<open>count\<close> (a Python int).
  \<open>Sentence.__eq__\<close> compares both attributes by value, which is HOL equality on the record.
\<close>

type_synonym cell = "int \<times> int"

record sentence =
  cells :: "cell set"
  count :: int

text \<open>
  Python iterates over a set in an order the language does not fix. Where the effect of a
  \<open>for\<close> loop over a set does not depend on the order, the loop is a \<open>fold\<close> over one
  enumeration of the set (the sorted one); lemmas below show that any other enumeration gives
  the same state. Where the result does depend on the order (\<open>make_safe_move\<close>), the
  enumeration is a parameter of the model.
\<close>

definition set_iter :: "cell set \<Rightarrow> cell list" where
  "set_iter S = sorted_list_of_set S"

text \<open>
  \<open>Sentence.known_mines\<close> and \<open>Sentence.known_safes\<close> build a fresh set by adding every cell
  of \<open>self.cells\<close> and return it inside the \<open>if\<close>; when the condition fails the method falls
  off its end and returns \<open>None\<close>.
\<close>

definition known_mines :: "sentence \<Rightarrow> cell set option" where
  "known_mines s =
     (if cells s \<noteq> {} \<and> count s = int (card (cells s))
      then Some (fold insert (set_iter (cells s)) {})
      else None)"

definition known_safes :: "sentence \<Rightarrow> cell set option" where
  "known_safes s =
     (if count s = 0 \<and> cells s \<noteq> {}
      then Some (fold insert (set_iter (cells s)) {})
      else None)"

definition sentence_mark_mine :: "sentence \<Rightarrow> cell \<Rightarrow> sentence" where
  "sentence_mark_mine s c =
     (if c \<in> cells s then s\<lparr>cells := cells s - {c}, count := count s - 1\<rparr> else s)"

definition sentence_mark_safe :: "sentence \<Rightarrow> cell \<Rightarrow> sentence" where
  "sentence_mark_safe s c =
     (if c \<in> cells s then s\<lparr>cells := cells s - {c}\<rparr> else s)"

text \<open>
  \<open>Sentence\<close> objects are mutated in place and the list \<open>self.knowledge\<close> holds references to
  them, as does its shallow copy \<open>test\<close> inside \<open>add_knowledge\<close>. The model keeps an explicit
  object store: a reference is an index into \<open>store\<close>, a new object is appended to the store,
  and \<open>knowledge\<close> is the list of references. \<open>random_attr\<close> is the attribute \<open>self.random\<close>,
  which does not exist (\<open>None\<close>) until \<open>make_random_move\<close> creates it.
\<close>

type_synonym ref = nat

record ai =
  height :: int
  width :: int
  moves_made :: "cell set"
  mines :: "cell set"
  safes :: "cell set"
  knowledge :: "ref list"
  random_attr :: "cell set option"
  store :: "sentence list"

definition init_ai :: "int \<Rightarrow> int \<Rightarrow> ai" where
  "init_ai h w =
     \<lparr>height = h, width = w, moves_made = {}, mines = {}, safes = {},
      knowledge = [], random_attr = None, store = []\<rparr>"

text \<open>\<open>for sentence in self.knowledge: sentence.m(cell)\<close>, for a method \<open>m\<close> of the sentence.\<close>

definition for_knowledge :: "(sentence \<Rightarrow> sentence) \<Rightarrow> ref list \<Rightarrow> sentence list \<Rightarrow> sentence list" where
  "for_knowledge f ks st = fold (\<lambda>r st. st[r := f (st ! r)]) ks st"

definition mark_mine :: "ai \<Rightarrow> cell \<Rightarrow> ai" where
  "mark_mine e c =
     e\<lparr>mines := insert c (mines e),
       store := for_knowledge (\<lambda>s. sentence_mark_mine s c) (knowledge e) (store e)\<rparr>"

definition mark_safe :: "ai \<Rightarrow> cell \<Rightarrow> ai" where
  "mark_safe e c =
     e\<lparr>safes := insert c (safes e),
       store := for_knowledge (\<lambda>s. sentence_mark_safe s c) (knowledge e) (store e)\<rparr>"

section \<open>The engine's \<open>add_knowledge\<close>\<close>

text \<open>
  Steps 1 to 3 of \<open>add_knowledge\<close>: record the move, mark the cell safe, and build the new
  sentence from the neighbourhood. The two nested \<open>range\<close> loops visit the 3 x 3 block around
  the cell row by row; the loop state is the local \<open>count\<close> and the set \<open>near_by\<close>.
\<close>

definition neighbourhood :: "cell \<Rightarrow> cell list" where
  "neighbourhood c =
     concat (map (\<lambda>i. map (\<lambda>j. (i, j)) [snd c - 1 .. snd c + 1]) [fst c - 1 .. fst c + 1])"

definition near_by_step :: "ai \<Rightarrow> cell \<Rightarrow> cell \<Rightarrow> int \<times> cell set \<Rightarrow> int \<times> cell set" where
  "near_by_step e c ij = (\<lambda>(cnt, near_by).
     if ij = c then (cnt, near_by)
     else if 0 \<le> fst ij \<and> fst ij < height e \<and> 0 \<le> snd ij \<and> snd ij < width e then
       (if ij \<notin> moves_made e \<and> ij \<notin> safes e then
          (if ij \<in> mines e then (cnt - 1, near_by) else (cnt, insert ij near_by))
        else (cnt, near_by))
     else (cnt, near_by))"

definition add_sentence :: "ai \<Rightarrow> cell \<Rightarrow> int \<Rightarrow> ai" where
  "add_sentence e c cnt =
     (let e1 = e\<lparr>moves_made := insert c (moves_made e)\<rparr>;
          e2 = mark_safe e1 c;
          (cnt', near_by) = fold (near_by_step e2 c) (neighbourhood c) (cnt, {});
          new = \<lparr>cells = near_by, count = cnt'\<rparr>
      in e2\<lparr>store := store e2 @ [new], knowledge := knowledge e2 @ [length (store e2)]\<rparr>)"

text \<open>
  Step 4, the body of \<open>for sentence in self.knowledge\<close>: \<open>r\<close> is the reference the iterator
  yields. The \<open>if\<close> tests the truthiness of the returned value (\<open>None\<close> and the empty set are
  false). \<open>known_mines\<close> is called after the safe cells were marked, so it reads the sentence
  as the marking left it. The marking never changes the list \<open>self.knowledge\<close> itself, so the
  iterator yields the references of the list as it was when the loop started.
\<close>

definition mark_sentence :: "ref \<Rightarrow> ai \<Rightarrow> ai" where
  "mark_sentence r e =
     (let e1 = (case known_safes (store e ! r) of
                  Some S \<Rightarrow> if S \<noteq> {} then fold (\<lambda>c e. mark_safe e c) (set_iter S) e else e
                | None \<Rightarrow> e);
          e2 = (case known_mines (store e1 ! r) of
                  Some S \<Rightarrow> if S \<noteq> {} then fold (\<lambda>c e. mark_mine e c) (set_iter S) e1 else e1
                | None \<Rightarrow> e1)
      in e2)"

definition mark_all :: "ai \<Rightarrow> ai" where
  "mark_all e = fold mark_sentence (knowledge e) e"

text \<open>
  \<open>list.remove(x)\<close> deletes the first element equal to \<open>x\<close> (by \<open>Sentence.__eq__\<close>, that is by
  value) and raises \<open>ValueError\<close> when there is none.
\<close>

datatype error = ValueError

fun list_remove :: "sentence list \<Rightarrow> ref list \<Rightarrow> sentence \<Rightarrow> error + ref list" where
  "list_remove st [] v = Inl ValueError"
| "list_remove st (r # rs) v =
     (if st ! r = v then Inr rs
      else (case list_remove st rs v of Inl x \<Rightarrow> Inl x | Inr rs' \<Rightarrow> Inr (r # rs')))"

text \<open>
  Step 5, the body of the inner loop for \<open>sentence1\<close> (reference \<open>r1\<close>) and \<open>sentence2\<close>
  (reference \<open>r2\<close>): the new sentence is a new object, appended to the list before
  \<open>sentence2\<close> is removed from it.
\<close>

definition infer_body :: "ref \<Rightarrow> ref \<Rightarrow> ai \<Rightarrow> error + ai" where
  "infer_body r1 r2 e =
     (let s1 = store e ! r1; s2 = store e ! r2 in
      if s1 = s2 \<or> card (cells s1) = 0 \<or> card (cells s2) = 0 then Inr e
      else if cells s1 \<subseteq> cells s2 \<and> card (cells s1) \<noteq> card (cells s2) then
        (let new = \<lparr>cells = cells s2 - cells s1, count = count s2 - count s1\<rparr>;
             st = store e @ [new];
             ks = knowledge e @ [length (store e)]
         in case list_remove st ks s2 of
              Inl x \<Rightarrow> Inl x
            | Inr ks' \<Rightarrow> Inr (e\<lparr>store := st, knowledge := ks'\<rparr>))
      else Inr e)"

text \<open>
  Both loops of step 5 run over the list while the body changes it. A Python list iterator
  keeps an index: each round it stops when the index has reached the current length of the
  list, and otherwise yields the element now at that index and advances.
\<close>

function infer_inner :: "ref \<Rightarrow> nat \<Rightarrow> ai \<Rightarrow> error + ai" where
  "infer_inner r1 j e =
     (if j < length (knowledge e) then
        (case infer_body r1 (knowledge e ! j) e of
           Inl x \<Rightarrow> Inl x
         | Inr e' \<Rightarrow> infer_inner r1 (Suc j) e')
      else Inr e)"
  by pat_completeness auto

lemma list_remove_length: "list_remove st ks v = Inr ks' \<Longrightarrow> Suc (length ks') = length ks"
  by (induction ks arbitrary: ks') (auto split: if_splits sum.splits)

lemma infer_body_length:
  "infer_body r1 r2 e = Inr e' \<Longrightarrow> length (knowledge e') = length (knowledge e)"
  by (auto simp: infer_body_def Let_def split: if_splits sum.splits dest: list_remove_length)

termination infer_inner
  by (relation "measure (\<lambda>(r1, j, e). length (knowledge e) - j)")
     (auto dest: infer_body_length)

declare infer_inner.simps [simp del]

lemma infer_inner_length:
  "infer_inner r1 j e = Inr e' \<Longrightarrow> length (knowledge e') = length (knowledge e)"
proof (induction r1 j e rule: infer_inner.induct)
  case (1 r1 j e)
  show ?case
  proof (cases "j < length (knowledge e)")
    case False
    with "1.prems" show ?thesis by (simp add: infer_inner.simps [of r1 j e])
  next
    case True
    with "1.prems" obtain e1 where b: "infer_body r1 (knowledge e ! j) e = Inr e1"
      and r: "infer_inner r1 (Suc j) e1 = Inr e'"
      by (auto simp: infer_inner.simps [of r1 j e] split: sum.splits)
    from "1.IH" [OF True b r] infer_body_length [OF b] show ?thesis by simp
  qed
qed

function infer_outer :: "nat \<Rightarrow> ai \<Rightarrow> error + ai" where
  "infer_outer i e =
     (if i < length (knowledge e) then
        (case infer_inner (knowledge e ! i) 0 e of
           Inl x \<Rightarrow> Inl x
         | Inr e' \<Rightarrow> infer_outer (Suc i) e')
      else Inr e)"
  by pat_completeness auto
termination
  by (relation "measure (\<lambda>(i, e). length (knowledge e) - i)")
     (auto dest: infer_inner_length)

declare infer_outer.simps [simp del]

text \<open>
  The last step of a pass: \<open>for sentence in self.knowledge.copy()\<close> runs over a snapshot of the
  references and removes from the live list the first sentence equal to each empty one.
\<close>

fun remove_empty :: "ref list \<Rightarrow> ai \<Rightarrow> error + ai" where
  "remove_empty [] e = Inr e"
| "remove_empty (r # rs) e =
     (if card (cells (store e ! r)) = 0 then
        (case list_remove (store e) (knowledge e) (store e ! r) of
           Inl x \<Rightarrow> Inl x
         | Inr ks' \<Rightarrow> remove_empty rs (e\<lparr>knowledge := ks'\<rparr>))
      else remove_empty rs e)"

text \<open>
  One round of the \<open>while True\<close> loop. \<open>test\<close> is a shallow copy: it holds the references
  that were in the list when the round started, so the final comparison reads the sentences
  behind them as they are at the end of the round. Two lists are equal in Python when they
  have the same length and equal elements at every index; the elements are compared by
  \<open>Sentence.__eq__\<close>. The round returns the new state and whether the loop breaks.
\<close>

definition knowledge_pass :: "ai \<Rightarrow> error + (ai \<times> bool)" where
  "knowledge_pass e =
     (let test = knowledge e;
          e4 = mark_all e
      in case (if length (knowledge e4) \<ge> 2 then infer_outer 0 e4 else Inr e4) of
           Inl x \<Rightarrow> Inl x
         | Inr e5 \<Rightarrow>
             (case remove_empty (knowledge e5) e5 of
                Inl x \<Rightarrow> Inl x
              | Inr e6 \<Rightarrow>
                  Inr (e6, map (\<lambda>r. store e6 ! r) (knowledge e6) = map (\<lambda>r. store e6 ! r) test)))"

text \<open>
  The \<open>while True\<close> loop may in principle run forever, so it is a partial function:
  \<open>None\<close> is "does not return", \<open>Some (Inl ValueError)\<close> an uncaught exception and
  \<open>Some (Inr e)\<close> the normal return with final state \<open>e\<close>.
\<close>

partial_function (option) propagate :: "ai \<Rightarrow> (error + ai) option" where
  "propagate e =
     (case knowledge_pass e of
        Inl x \<Rightarrow> Some (Inl x)
      | Inr p \<Rightarrow> if snd p then Some (Inr (fst p)) else propagate (fst p))"

declare propagate.simps [code]

definition add_knowledge :: "ai \<Rightarrow> cell \<Rightarrow> int \<Rightarrow> (error + ai) option" where
  "add_knowledge e c cnt = propagate (add_sentence e c cnt)"

section \<open>Move selection\<close>

text \<open>
  \<open>make_safe_move\<close> returns the first cell the set iterator yields that is not in
  \<open>moves_made\<close>; when the loop ends without a hit, or \<open>safes\<close> is empty, it returns \<open>None\<close>.
  \<open>iter\<close> is the order in which Python enumerates a set.
\<close>

definition make_safe_move :: "(cell set \<Rightarrow> cell list) \<Rightarrow> ai \<Rightarrow> cell option \<times> ai" where
  "make_safe_move iter e =
     (if safes e \<noteq> {} then (find (\<lambda>c. c \<notin> moves_made e) (iter (safes e)), e)
      else (None, e))"

text \<open>
  \<open>make_random_move\<close> stores the candidate set in the attribute \<open>self.random\<close>. When the set
  is not empty it returns \<open>random.choice(tuple(self.random))\<close>: \<open>iter\<close> gives the tuple built
  from the set and \<open>choice\<close> is the element \<open>random.choice\<close> draws from a sequence.
\<close>

definition candidates_step :: "ai \<Rightarrow> int \<Rightarrow> int \<Rightarrow> cell set \<Rightarrow> cell set" where
  "candidates_step e i j S =
     (if (i, j) \<notin> moves_made e \<and> (i, j) \<notin> mines e then insert (i, j) S else S)"

definition make_random_move ::
  "(cell set \<Rightarrow> cell list) \<Rightarrow> (cell list \<Rightarrow> cell) \<Rightarrow> ai \<Rightarrow> cell option \<times> ai" where
  "make_random_move iter choice e =
     (let rnd = fold (\<lambda>i. fold (candidates_step e i) [0 .. width e - 1]) [0 .. height e - 1] {};
          e' = e\<lparr>random_attr := Some rnd\<rparr>
      in if rnd \<noteq> {} then (Some (choice (iter rnd)), e') else (None, e'))"

text \<open>
  The board: \<open>Minesweeper.nearby_mines\<close> counts the mines among the in-bounds cells of the
  3 x 3 block other than the cell itself. The board \<open>self.board[i][j]\<close> is given by the set
  \<open>M\<close> of its mined cells.
\<close>

definition nearby_mines :: "int \<Rightarrow> int \<Rightarrow> cell set \<Rightarrow> cell \<Rightarrow> int" where
  "nearby_mines h w M c =
     fold (\<lambda>ij cnt.
            if ij = c then cnt
            else if 0 \<le> fst ij \<and> fst ij < h \<and> 0 \<le> snd ij \<and> snd ij < w
              then (if ij \<in> M then cnt + 1 else cnt)
              else cnt)
          (neighbourhood c) 0"

text \<open>A driver that feeds a list of observations to \<open>add_knowledge\<close>, one call after another.\<close>

fun run :: "ai \<Rightarrow> (cell \<times> int) list \<Rightarrow> (error + ai) option" where
  "run e [] = Some (Inr e)"
| "run e ((c, cnt) # obs) =
     (case add_knowledge e c cnt of
        None \<Rightarrow> None
      | Some (Inl x) \<Rightarrow> Some (Inl x)
      | Some (Inr e') \<Rightarrow> run e' obs)"

section \<open>Notions used in the statements and the proofs\<close>

text \<open>
  The effect of marking on one stored sentence, in closed form: \<open>shrink_safe C\<close> is what
  \<open>Sentence.mark_safe\<close> leaves after it was called for every cell of \<open>C\<close>, and
  \<open>shrink_mine C\<close> likewise for \<open>Sentence.mark_mine\<close>.
\<close>

definition shrink_safe :: "cell set \<Rightarrow> sentence \<Rightarrow> sentence" where
  "shrink_safe C s = s\<lparr>cells := cells s - C\<rparr>"

definition shrink_mine :: "cell set \<Rightarrow> sentence \<Rightarrow> sentence" where
  "shrink_mine C s = s\<lparr>cells := cells s - C, count := count s - int (card (cells s \<inter> C))\<rparr>"

text \<open>
  A state is well formed when every reference in \<open>knowledge\<close> points into the store and every
  stored cell set is finite, as every Python set is.
\<close>

definition wf_ai :: "ai \<Rightarrow> bool" where
  "wf_ai e \<longleftrightarrow>
     (\<forall>r\<in>set (knowledge e). r < length (store e)) \<and>
     (\<forall>r<length (store e). finite (cells (store e ! r)))"

text \<open>\<open>shrinks e e'\<close>: \<open>e'\<close> differs from \<open>e\<close> only by marked cells.\<close>

definition shrinks :: "ai \<Rightarrow> ai \<Rightarrow> bool" where
  "shrinks e e' \<longleftrightarrow>
     knowledge e' = knowledge e \<and> length (store e') = length (store e) \<and>
     height e' = height e \<and> width e' = width e \<and> moves_made e' = moves_made e \<and>
     random_attr e' = random_attr e \<and>
     (\<forall>r<length (store e). cells (store e' ! r) \<subseteq> cells (store e ! r))"

text \<open>\<open>has_empty e\<close>: some sentence of \<open>knowledge\<close> has no cells left.\<close>

definition has_empty :: "ai \<Rightarrow> bool" where
  "has_empty e \<longleftrightarrow> (\<exists>r\<in>set (knowledge e). cells (store e ! r) = {})"

text \<open>
  A sentence is true in a mine assignment \<open>M\<close> when exactly \<open>count\<close> of its cells are mines.
  The state is sound for \<open>M\<close> when the cells recorded as mines are mines, the cells recorded
  as safe or as moves are not, and every stored sentence is true.
\<close>

definition true_in :: "cell set \<Rightarrow> sentence \<Rightarrow> bool" where
  "true_in M s \<longleftrightarrow> int (card (cells s \<inter> M)) = count s"

definition sound :: "cell set \<Rightarrow> ai \<Rightarrow> bool" where
  "sound M e \<longleftrightarrow>
     mines e \<subseteq> M \<and> safes e \<inter> M = {} \<and> moves_made e \<inter> M = {} \<and>
     (\<forall>r<length (store e). true_in M (store e ! r))"

text \<open>
  \<open>separated e\<close>: no cell is recorded both as safe and as a mine, and no sentence of
  \<open>knowledge\<close> mentions a cell that is recorded as safe or as a mine.
\<close>

definition separated :: "ai \<Rightarrow> bool" where
  "separated e \<longleftrightarrow>
     safes e \<inter> mines e = {} \<and>
     (\<forall>r\<in>set (knowledge e). cells (store e ! r) \<inter> (safes e \<union> mines e) = {})"

text \<open>
  The weight of a state: the cells of the sentences in \<open>knowledge\<close>, plus one for each
  sentence. Every round of the loop that does not break makes it smaller.
\<close>

definition weight :: "ai \<Rightarrow> nat" where
  "weight e = sum_list (map (\<lambda>r. Suc (card (cells (store e ! r)))) (knowledge e))"

text \<open>\<open>infers M e e'\<close>: what the loops of step 5 guarantee about the state they leave.\<close>

definition infers :: "cell set \<Rightarrow> ai \<Rightarrow> ai \<Rightarrow> bool" where
  "infers M e e' \<longleftrightarrow>
     wf_ai e' \<and> length (knowledge e') = length (knowledge e) \<and>
     (\<exists>new. store e' = store e @ new) \<and>
     height e' = height e \<and> width e' = width e \<and> moves_made e' = moves_made e \<and>
     mines e' = mines e \<and> safes e' = safes e \<and> random_attr e' = random_attr e \<and>
     (e' = e \<or> weight e' < weight e) \<and>
     (has_empty e' \<longleftrightarrow> has_empty e) \<and>
     (sound M e \<longrightarrow> sound M e') \<and>
     (separated e \<longrightarrow> separated e')"

text \<open>
  The in-bounds neighbours of a cell on a board of height \<open>h\<close> and width \<open>w\<close>: one row and
  one column away at most, not the cell itself, inside the board.
\<close>

definition neighbours :: "int \<Rightarrow> int \<Rightarrow> cell \<Rightarrow> cell set" where
  "neighbours h w c =
     {ij. ij \<noteq> c \<and> \<bar>fst ij - fst c\<bar> \<le> 1 \<and> \<bar>snd ij - snd c\<bar> \<le> 1 \<and>
          0 \<le> fst ij \<and> fst ij < h \<and> 0 \<le> snd ij \<and> snd ij < w}"

text \<open>
  The neighbours the loop of step 3 looks at: those that are in neither \<open>moves_made\<close> nor
  \<open>safes\<close>. Of these, the known mines lower the count and the others enter the sentence.
\<close>

definition unresolved :: "ai \<Rightarrow> cell \<Rightarrow> cell \<Rightarrow> bool" where
  "unresolved e c ij \<longleftrightarrow>
     ij \<noteq> c \<and> 0 \<le> fst ij \<and> fst ij < height e \<and> 0 \<le> snd ij \<and> snd ij < width e \<and>
     ij \<notin> moves_made e \<and> ij \<notin> safes e"

text \<open>
  The states the public operations reach from a new engine: \<open>mark_mine\<close>, \<open>mark_safe\<close>,
  \<open>add_knowledge\<close> (when it returns) and the two move queries, with any arguments.
\<close>

inductive reachable :: "ai \<Rightarrow> bool" where
  init: "reachable (init_ai h w)"
| mark_mine: "reachable e \<Longrightarrow> reachable (mark_mine e c)"
| mark_safe: "reachable e \<Longrightarrow> reachable (mark_safe e c)"
| add_knowledge: "reachable e \<Longrightarrow> add_knowledge e c cnt = Some (Inr e') \<Longrightarrow> reachable e'"
| make_safe_move: "reachable e \<Longrightarrow> reachable (snd (make_safe_move iter e))"
| make_random_move: "reachable e \<Longrightarrow> reachable (snd (make_random_move iter choice e))"

text \<open>
  The states reached when no public operation is asked to contradict what is already
  recorded: \<open>mark_mine\<close> is not called for a cell in \<open>safes\<close>, and \<open>mark_safe\<close> and
  \<open>add_knowledge\<close> (which marks its cell safe) are not called for a cell in \<open>mines\<close>. The
  counts given to \<open>add_knowledge\<close> are arbitrary.
\<close>

inductive guarded :: "ai \<Rightarrow> bool" where
  init: "guarded (init_ai h w)"
| mark_mine: "guarded e \<Longrightarrow> c \<notin> safes e \<Longrightarrow> guarded (mark_mine e c)"
| mark_safe: "guarded e \<Longrightarrow> c \<notin> mines e \<Longrightarrow> guarded (mark_safe e c)"
| add_knowledge:
    "guarded e \<Longrightarrow> c \<notin> mines e \<Longrightarrow> add_knowledge e c cnt = Some (Inr e') \<Longrightarrow> guarded e'"

text \<open>
  The sentences of the example: \<open>A\<close> and \<open>B\<close> are given, \<open>N\<close> is the sentence derived from
  them, and \<open>E\<close> is what is left of \<open>N\<close> once its cell is marked as a mine. \<open>ex_state\<close> puts
  a list of references, a store and a set of known mines into an engine state whose other
  attributes are those of \<open>e\<close>.
\<close>

definition ex_A :: sentence where "ex_A = \<lparr>cells = {(0, 0), (0, 1)}, count = 1\<rparr>"

definition ex_B :: sentence where "ex_B = \<lparr>cells = {(0, 0), (0, 1), (0, 2)}, count = 2\<rparr>"

definition ex_N :: sentence where "ex_N = \<lparr>cells = {(0, 2)}, count = 1\<rparr>"

definition ex_state :: "ai \<Rightarrow> ref list \<Rightarrow> sentence list \<Rightarrow> cell set \<Rightarrow> ai" where
  "ex_state e ks st ms = e\<lparr>knowledge := ks, store := st, mines := ms\<rparr>"

definition ex_E :: sentence where "ex_E = \<lparr>cells = {}, count = 0\<rparr>"

text \<open>The sentences of \<open>knowledge\<close>, by value and in the order of the list.\<close>

definition sentences :: "ai \<Rightarrow> sentence list" where
  "sentences e = map (\<lambda>r. store e ! r) (knowledge e)"

text \<open>
  The candidate set of \<open>make_random_move\<close>: the cells of the grid that are neither probed
  nor known mines.
\<close>

definition candidates :: "ai \<Rightarrow> cell set" where
  "candidates e =
     {(i, j). 0 \<le> i \<and> i < height e \<and> 0 \<le> j \<and> j < width e \<and>
              (i, j) \<notin> moves_made e \<and> (i, j) \<notin> mines e}"

section \<open>Sentences\<close>

lemma fold_insert_list: "fold insert xs A = set xs \<union> A"
  by (induction xs arbitrary: A) auto

lemma set_copy: "finite S \<Longrightarrow> fold insert (set_iter S) {} = S"
  by (simp add: fold_insert_list set_iter_def)

text \<open>
  Claim C4, as amended. \<open>known_safes\<close> returns the sentence's cell set exactly when the count
  is zero and the cell set is not empty; for a non-zero count, and also for an empty cell set
  with count zero, it returns \<open>None\<close> (not the empty set).
\<close>

theorem known_safes_result:
  "finite (cells s) \<Longrightarrow>
     (count s = 0 \<and> cells s \<noteq> {} \<longrightarrow> known_safes s = Some (cells s)) \<and>
     (count s \<noteq> 0 \<longrightarrow> known_safes s = None) \<and>
     (cells s = {} \<longrightarrow> known_safes s = None)"
  by (simp add: known_safes_def set_copy)

theorem known_safes_result_witness:
  "finite (cells \<lparr>cells = {(1, 0), (1, 1)}, count = 0\<rparr>) \<and>
   known_safes \<lparr>cells = {(1, 0), (1, 1)}, count = 0\<rparr> = Some {(1, 0), (1, 1)} \<and>
   known_safes \<lparr>cells = {(1, 0), (1, 1)}, count = 1\<rparr> = None \<and>
   known_safes \<lparr>cells = {}, count = 0\<rparr> = None"
  using known_safes_result [of "\<lparr>cells = {(1, 0), (1, 1)}, count = 0\<rparr>"]
    known_safes_result [of "\<lparr>cells = {(1, 0), (1, 1)}, count = 1\<rparr>"]
    known_safes_result [of "\<lparr>cells = {}, count = 0\<rparr>"]
  by simp

theorem known_safes_empty_counterexample:
  "known_safes \<lparr>cells = {}, count = 0\<rparr> \<noteq> Some (cells \<lparr>cells = {}, count = 0\<rparr>)"
  by (simp add: known_safes_def)

section \<open>Marking cells\<close>

lemma length_for_knowledge [simp]: "length (for_knowledge f ks st) = length st"
  unfolding for_knowledge_def by (induction ks arbitrary: st) auto

lemma for_knowledge_nth:
  assumes "\<And>x. f (f x) = f x" and "r < length st"
  shows "for_knowledge f ks st ! r = (if r \<in> set ks then f (st ! r) else st ! r)"
  using assms(2) unfolding for_knowledge_def
proof (induction ks arbitrary: st)
  case Nil
  then show ?case by simp
next
  case (Cons k ks)
  let ?st = "st[k := f (st ! k)]"
  have len: "r < length ?st" using Cons.prems by simp
  have "fold (\<lambda>r st. st[r := f (st ! r)]) (k # ks) st ! r
        = (if r \<in> set ks then f (?st ! r) else ?st ! r)"
    using Cons.IH [OF len] by simp
  also have "\<dots> = (if r \<in> set (k # ks) then f (st ! r) else st ! r)"
    using Cons.prems by (cases "r = k") (simp_all add: assms(1))
  finally show ?case .
qed

lemma for_knowledge_twice:
  assumes "\<And>x. f (f x) = f x"
  shows "for_knowledge f ks (for_knowledge f ks st) = for_knowledge f ks st"
  by (rule nth_equalityI) (simp_all add: for_knowledge_nth assms)

lemma sentence_mark_safe_idem:
  "sentence_mark_safe (sentence_mark_safe s c) c = sentence_mark_safe s c"
  by (simp add: sentence_mark_safe_def)

lemma sentence_mark_mine_idem:
  "sentence_mark_mine (sentence_mark_mine s c) c = sentence_mark_mine s c"
  by (simp add: sentence_mark_mine_def)

text \<open>
  Claim C9. Calling the engine's \<open>mark_safe\<close> twice with the same cell gives the same engine
  state as calling it once, and so does \<open>mark_mine\<close>: the whole state is equal, so no
  sentence's count is decremented a second time.
\<close>

theorem mark_twice:
  "mark_safe (mark_safe e c) c = mark_safe e c \<and> mark_mine (mark_mine e c) c = mark_mine e c"
  by (simp add: mark_safe_def mark_mine_def for_knowledge_twice
      sentence_mark_safe_idem sentence_mark_mine_idem)

lemma mark_safe_nth:
  "r < length (store e) \<Longrightarrow>
   store (mark_safe e c) ! r =
     (if r \<in> set (knowledge e) then shrink_safe {c} (store e ! r) else store e ! r)"
  by (simp add: mark_safe_def for_knowledge_nth sentence_mark_safe_idem)
     (auto simp: sentence_mark_safe_def shrink_safe_def)

lemma mark_mine_nth:
  "r < length (store e) \<Longrightarrow>
   store (mark_mine e c) ! r =
     (if r \<in> set (knowledge e) then shrink_mine {c} (store e ! r) else store e ! r)"
  by (simp add: mark_mine_def for_knowledge_nth sentence_mark_mine_idem)
     (auto simp: sentence_mark_mine_def shrink_mine_def)

lemma Diff_single_Diff: "A - {c} - C = A - insert c C"
  by auto

lemma shrink_safe_insert: "shrink_safe C (shrink_safe {c} s) = shrink_safe (insert c C) s"
  by (simp add: shrink_safe_def Diff_single_Diff)

lemma card_Int_insert_split:
  assumes "finite C"
  shows "card (A \<inter> insert c C) = card (A \<inter> {c}) + card ((A - {c}) \<inter> C)"
proof -
  have "A \<inter> insert c C = (A \<inter> {c}) \<union> ((A - {c}) \<inter> C)" by auto
  moreover have "(A \<inter> {c}) \<inter> ((A - {c}) \<inter> C) = {}" by auto
  moreover have "finite (A \<inter> {c})" "finite ((A - {c}) \<inter> C)" using assms by auto
  ultimately show ?thesis by (metis card_Un_disjoint)
qed

lemma shrink_mine_insert:
  "finite C \<Longrightarrow> shrink_mine C (shrink_mine {c} s) = shrink_mine (insert c C) s"
  by (simp add: shrink_mine_def card_Int_insert_split [of C "cells s" c] Diff_single_Diff)

lemma shrink_safe_empty [simp]: "shrink_safe {} s = s"
  by (simp add: shrink_safe_def)

lemma shrink_mine_empty [simp]: "shrink_mine {} s = s"
  by (simp add: shrink_mine_def)

lemma mark_safe_fields [simp]:
  "knowledge (mark_safe e c) = knowledge e" "length (store (mark_safe e c)) = length (store e)"
  "safes (mark_safe e c) = insert c (safes e)" "mines (mark_safe e c) = mines e"
  "moves_made (mark_safe e c) = moves_made e" "height (mark_safe e c) = height e"
  "width (mark_safe e c) = width e" "random_attr (mark_safe e c) = random_attr e"
  by (simp_all add: mark_safe_def)

lemma mark_mine_fields [simp]:
  "knowledge (mark_mine e c) = knowledge e" "length (store (mark_mine e c)) = length (store e)"
  "mines (mark_mine e c) = insert c (mines e)" "safes (mark_mine e c) = safes e"
  "moves_made (mark_mine e c) = moves_made e" "height (mark_mine e c) = height e"
  "width (mark_mine e c) = width e" "random_attr (mark_mine e c) = random_attr e"
  by (simp_all add: mark_mine_def)

lemma mark_safe_list_fields [simp]:
  "knowledge (fold (\<lambda>c e. mark_safe e c) cs e) = knowledge e"
  "length (store (fold (\<lambda>c e. mark_safe e c) cs e)) = length (store e)"
  "safes (fold (\<lambda>c e. mark_safe e c) cs e) = set cs \<union> safes e"
  "mines (fold (\<lambda>c e. mark_safe e c) cs e) = mines e"
  "moves_made (fold (\<lambda>c e. mark_safe e c) cs e) = moves_made e"
  "height (fold (\<lambda>c e. mark_safe e c) cs e) = height e"
  "width (fold (\<lambda>c e. mark_safe e c) cs e) = width e"
  "random_attr (fold (\<lambda>c e. mark_safe e c) cs e) = random_attr e"
  by (induction cs arbitrary: e; simp)+

lemma mark_mine_list_fields [simp]:
  "knowledge (fold (\<lambda>c e. mark_mine e c) cs e) = knowledge e"
  "length (store (fold (\<lambda>c e. mark_mine e c) cs e)) = length (store e)"
  "mines (fold (\<lambda>c e. mark_mine e c) cs e) = set cs \<union> mines e"
  "safes (fold (\<lambda>c e. mark_mine e c) cs e) = safes e"
  "moves_made (fold (\<lambda>c e. mark_mine e c) cs e) = moves_made e"
  "height (fold (\<lambda>c e. mark_mine e c) cs e) = height e"
  "width (fold (\<lambda>c e. mark_mine e c) cs e) = width e"
  "random_attr (fold (\<lambda>c e. mark_mine e c) cs e) = random_attr e"
  by (induction cs arbitrary: e; simp)+

lemma mark_safe_list_nth:
  "r < length (store e) \<Longrightarrow>
   store (fold (\<lambda>c e. mark_safe e c) cs e) ! r =
     (if r \<in> set (knowledge e) then shrink_safe (set cs) (store e ! r) else store e ! r)"
proof (induction cs arbitrary: e)
  case Nil
  then show ?case by simp
next
  case (Cons c cs)
  have "r < length (store (mark_safe e c))" using Cons.prems by simp
  from Cons.IH [OF this] Cons.prems show ?case
    by (simp add: mark_safe_nth shrink_safe_insert)
qed

lemma mark_mine_list_nth:
  "r < length (store e) \<Longrightarrow>
   store (fold (\<lambda>c e. mark_mine e c) cs e) ! r =
     (if r \<in> set (knowledge e) then shrink_mine (set cs) (store e ! r) else store e ! r)"
proof (induction cs arbitrary: e)
  case Nil
  then show ?case by simp
next
  case (Cons c cs)
  have "r < length (store (mark_mine e c))" using Cons.prems by simp
  from Cons.IH [OF this] Cons.prems show ?case
    by (simp add: mark_mine_nth shrink_mine_insert)
qed

text \<open>
  The order in which the cells of a set are marked does not matter: two enumerations of the
  same set leave the same engine state.
\<close>

lemma mark_safe_list_order:
  assumes "set cs = set cs'"
  shows "fold (\<lambda>c e. mark_safe e c) cs e = fold (\<lambda>c e. mark_safe e c) cs' e"
proof (rule ai.equality)
  show "store (fold (\<lambda>c e. mark_safe e c) cs e) = store (fold (\<lambda>c e. mark_safe e c) cs' e)"
    by (rule nth_equalityI) (simp_all add: mark_safe_list_nth assms)
qed (simp_all add: assms)

lemma mark_mine_list_order:
  assumes "set cs = set cs'"
  shows "fold (\<lambda>c e. mark_mine e c) cs e = fold (\<lambda>c e. mark_mine e c) cs' e"
proof (rule ai.equality)
  show "store (fold (\<lambda>c e. mark_mine e c) cs e) = store (fold (\<lambda>c e. mark_mine e c) cs' e)"
    by (rule nth_equalityI) (simp_all add: mark_mine_list_nth assms)
qed (simp_all add: assms)

section \<open>Well-formed states and one round of marking\<close>

lemma shrinks_refl [simp]: "shrinks e e"
  by (simp add: shrinks_def)

lemma shrinks_trans:
  assumes "shrinks e1 e2" and "shrinks e2 e3"
  shows "shrinks e1 e3"
proof -
  have "cells (store e3 ! r) \<subseteq> cells (store e1 ! r)" if "r < length (store e1)" for r
  proof -
    have "cells (store e3 ! r) \<subseteq> cells (store e2 ! r)"
      using assms that by (simp add: shrinks_def)
    moreover have "cells (store e2 ! r) \<subseteq> cells (store e1 ! r)"
      using assms that by (simp add: shrinks_def)
    ultimately show ?thesis by (rule subset_trans)
  qed
  then show ?thesis using assms by (simp add: shrinks_def)
qed

lemma shrinks_wf:
  assumes "wf_ai e" and "shrinks e e'"
  shows "wf_ai e'"
proof -
  have "finite (cells (store e' ! r))" if "r < length (store e')" for r
  proof -
    have r: "r < length (store e)" using assms(2) that by (simp add: shrinks_def)
    then have "cells (store e' ! r) \<subseteq> cells (store e ! r)"
      using assms(2) by (simp add: shrinks_def)
    moreover have "finite (cells (store e ! r))" using assms(1) r by (simp add: wf_ai_def)
    ultimately show ?thesis by (rule finite_subset)
  qed
  moreover have "\<forall>r\<in>set (knowledge e'). r < length (store e')"
    using assms by (simp add: wf_ai_def shrinks_def)
  ultimately show ?thesis by (simp add: wf_ai_def)
qed

lemma shrinks_has_empty:
  assumes "wf_ai e" and "shrinks e e'" and "has_empty e"
  shows "has_empty e'"
proof -
  from assms(3) obtain r where r: "r \<in> set (knowledge e)" and c: "cells (store e ! r) = {}"
    by (auto simp: has_empty_def)
  have "r < length (store e)" using assms(1) r by (simp add: wf_ai_def)
  then have "cells (store e' ! r) \<subseteq> cells (store e ! r)"
    using assms(2) by (simp add: shrinks_def)
  with c have "cells (store e' ! r) = {}" by simp
  moreover have "r \<in> set (knowledge e')" using assms(2) r by (simp add: shrinks_def)
  ultimately show ?thesis by (auto simp: has_empty_def)
qed

lemma shrinks_mark_safe_list: "shrinks e (fold (\<lambda>c e. mark_safe e c) cs e)"
  by (auto simp: shrinks_def mark_safe_list_nth shrink_safe_def)

lemma shrinks_mark_mine_list: "shrinks e (fold (\<lambda>c e. mark_mine e c) cs e)"
  by (auto simp: shrinks_def mark_mine_list_nth shrink_mine_def)

lemma shrinks_mark_safe: "shrinks e (mark_safe e c)"
  using shrinks_mark_safe_list [of e "[c]"] by simp

lemma shrinks_mark_mine: "shrinks e (mark_mine e c)"
  using shrinks_mark_mine_list [of e "[c]"] by simp

lemma set_set_iter [simp]: "finite S \<Longrightarrow> set (set_iter S) = S"
  by (simp add: set_iter_def)

lemma known_safes_Some:
  "finite (cells s) \<Longrightarrow> known_safes s = Some S \<longleftrightarrow> count s = 0 \<and> cells s \<noteq> {} \<and> S = cells s"
  by (auto simp: known_safes_def set_copy)

lemma known_mines_Some:
  "finite (cells s) \<Longrightarrow>
   known_mines s = Some S \<longleftrightarrow> cells s \<noteq> {} \<and> count s = int (card (cells s)) \<and> S = cells s"
  by (auto simp: known_mines_def set_copy)

lemma known_mines_empty: "cells s = {} \<Longrightarrow> known_mines s = None"
  by (simp add: known_mines_def)

text \<open>The body of the marking loop, by cases on the sentence it reads.\<close>

lemma mark_sentence_safes:
  assumes "known_safes (store e ! r) = Some S" and "S \<noteq> {}"
    and "known_mines (store (fold (\<lambda>c e. mark_safe e c) (set_iter S) e) ! r) = None"
  shows "mark_sentence r e = fold (\<lambda>c e. mark_safe e c) (set_iter S) e"
  unfolding mark_sentence_def Let_def using assms by simp

lemma mark_sentence_mines:
  assumes "known_safes (store e ! r) = None" and "known_mines (store e ! r) = Some S" and "S \<noteq> {}"
  shows "mark_sentence r e = fold (\<lambda>c e. mark_mine e c) (set_iter S) e"
  unfolding mark_sentence_def Let_def using assms by simp

lemma mark_sentence_none:
  assumes "known_safes (store e ! r) = None" and "known_mines (store e ! r) = None"
  shows "mark_sentence r e = e"
  unfolding mark_sentence_def Let_def using assms by simp

lemma mark_sentence_cases [consumes 2, case_names safes mines none]:
  assumes "wf_ai e" and "r \<in> set (knowledge e)"
  obtains
    (safes) "count (store e ! r) = 0" "cells (store e ! r) \<noteq> {}"
      "mark_sentence r e = fold (\<lambda>c e. mark_safe e c) (set_iter (cells (store e ! r))) e"
  | (mines) "count (store e ! r) = int (card (cells (store e ! r)))" "cells (store e ! r) \<noteq> {}"
      "mark_sentence r e = fold (\<lambda>c e. mark_mine e c) (set_iter (cells (store e ! r))) e"
  | (none) "mark_sentence r e = e"
proof -
  let ?s = "store e ! r"
  have r: "r < length (store e)" and fin: "finite (cells ?s)"
    using assms by (auto simp: wf_ai_def)
  show thesis
  proof (cases "known_safes ?s")
    case (Some S)
    then have S: "count ?s = 0" "cells ?s \<noteq> {}" "S = cells ?s"
      using fin by (simp_all add: known_safes_Some)
    let ?e1 = "fold (\<lambda>c e. mark_safe e c) (set_iter S) e"
    have "cells (store ?e1 ! r) = {}"
      using r assms(2) fin S(3) by (simp add: mark_safe_list_nth shrink_safe_def)
    then have "known_mines (store ?e1 ! r) = None" by (rule known_mines_empty)
    from mark_sentence_safes [OF Some _ this] S have "mark_sentence r e = ?e1" by simp
    with S show thesis by (intro safes) simp_all
  next
    case None
    show thesis
    proof (cases "known_mines ?s")
      case (Some S)
      then have S: "count ?s = int (card (cells ?s))" "cells ?s \<noteq> {}" "S = cells ?s"
        using fin by (simp_all add: known_mines_Some)
      from mark_sentence_mines [OF None Some] S
      have "mark_sentence r e = fold (\<lambda>c e. mark_mine e c) (set_iter S) e" by simp
      with S show thesis by (intro mines) simp_all
    next
      case N2: None
      from mark_sentence_none [OF None N2] show thesis by (rule none)
    qed
  qed
qed

lemma mark_sentence_shrinks:
  assumes "wf_ai e" and "r \<in> set (knowledge e)"
  shows "shrinks e (mark_sentence r e)"
  using assms
  by (cases rule: mark_sentence_cases)
     (simp_all add: shrinks_mark_safe_list shrinks_mark_mine_list)

lemma mark_sentence_change:
  assumes "wf_ai e" and "r \<in> set (knowledge e)"
  shows "mark_sentence r e = e \<or> has_empty (mark_sentence r e)"
proof -
  let ?s = "store e ! r"
  have r: "r < length (store e)" and fin: "finite (cells ?s)"
    using assms by (auto simp: wf_ai_def)
  from assms show ?thesis
  proof (cases rule: mark_sentence_cases)
    case safes
    have "cells (store (fold (\<lambda>c e. mark_safe e c) (set_iter (cells ?s)) e) ! r) = {}"
      using r assms(2) fin by (simp add: mark_safe_list_nth shrink_safe_def)
    with safes(3) assms(2) have "has_empty (mark_sentence r e)"
      by (auto simp: has_empty_def)
    then show ?thesis ..
  next
    case mines
    have "cells (store (fold (\<lambda>c e. mark_mine e c) (set_iter (cells ?s)) e) ! r) = {}"
      using r assms(2) fin by (simp add: mark_mine_list_nth shrink_mine_def)
    with mines(3) assms(2) have "has_empty (mark_sentence r e)"
      by (auto simp: has_empty_def)
    then show ?thesis ..
  next
    case none
    then show ?thesis ..
  qed
qed

lemma mark_fold_shrinks:
  "wf_ai e \<Longrightarrow> set ks \<subseteq> set (knowledge e) \<Longrightarrow> shrinks e (fold mark_sentence ks e)"
proof (induction ks arbitrary: e)
  case Nil
  then show ?case by simp
next
  case (Cons k ks)
  have s1: "shrinks e (mark_sentence k e)"
    using Cons.prems by (simp add: mark_sentence_shrinks)
  then have "wf_ai (mark_sentence k e)" "set ks \<subseteq> set (knowledge (mark_sentence k e))"
    using Cons.prems shrinks_wf by (auto simp: shrinks_def)
  from Cons.IH [OF this] s1 show ?case
    by (auto intro: shrinks_trans)
qed

lemma mark_fold_change:
  "wf_ai e \<Longrightarrow> set ks \<subseteq> set (knowledge e) \<Longrightarrow>
   fold mark_sentence ks e = e \<or> has_empty (fold mark_sentence ks e)"
proof (induction ks arbitrary: e)
  case Nil
  then show ?case by simp
next
  case (Cons k ks)
  let ?e1 = "mark_sentence k e"
  have s1: "shrinks e ?e1"
    using Cons.prems by (simp add: mark_sentence_shrinks)
  then have wf1: "wf_ai ?e1" and sub: "set ks \<subseteq> set (knowledge ?e1)"
    using Cons.prems shrinks_wf by (auto simp: shrinks_def)
  from Cons.IH [OF wf1 sub]
  have rest: "fold mark_sentence ks ?e1 = ?e1 \<or> has_empty (fold mark_sentence ks ?e1)" .
  have "?e1 = e \<or> has_empty ?e1"
    using Cons.prems by (simp add: mark_sentence_change)
  then show ?case
  proof
    assume "?e1 = e"
    with rest show ?thesis by simp
  next
    assume "has_empty ?e1"
    then have "has_empty (fold mark_sentence ks ?e1)"
      using shrinks_has_empty [OF wf1 mark_fold_shrinks [OF wf1 sub]] by simp
    then show ?thesis by simp
  qed
qed

lemma mark_all_shrinks: "wf_ai e \<Longrightarrow> shrinks e (mark_all e)"
  by (simp add: mark_all_def mark_fold_shrinks)

lemma mark_all_change: "wf_ai e \<Longrightarrow> mark_all e = e \<or> has_empty (mark_all e)"
  by (simp add: mark_all_def mark_fold_change)

section \<open>Soundness of marking\<close>

lemma true_in_shrink_safe: "C \<inter> M = {} \<Longrightarrow> true_in M s \<Longrightarrow> true_in M (shrink_safe C s)"
proof -
  assume "C \<inter> M = {}"
  then have "(cells s - C) \<inter> M = cells s \<inter> M" by auto
  moreover assume "true_in M s"
  ultimately show ?thesis by (simp add: true_in_def shrink_safe_def)
qed

lemma true_in_shrink_mine:
  assumes "C \<subseteq> M" and "finite (cells s)" and "true_in M s"
  shows "true_in M (shrink_mine C s)"
proof -
  have "cells s \<inter> M = ((cells s - C) \<inter> M) \<union> (cells s \<inter> C)" using assms(1) by auto
  moreover have "((cells s - C) \<inter> M) \<inter> (cells s \<inter> C) = {}" by auto
  moreover have "finite ((cells s - C) \<inter> M)" "finite (cells s \<inter> C)" using assms(2) by auto
  ultimately have "card (cells s \<inter> M) = card ((cells s - C) \<inter> M) + card (cells s \<inter> C)"
    by (metis card_Un_disjoint)
  with assms(3) show ?thesis by (simp add: true_in_def shrink_mine_def)
qed

lemma sound_mark_safe_list:
  assumes "sound M e" and "set cs \<inter> M = {}"
  shows "sound M (fold (\<lambda>c e. mark_safe e c) cs e)"
  using assms unfolding sound_def
  by (auto simp: mark_safe_list_nth true_in_shrink_safe)

lemma sound_mark_mine_list:
  assumes "sound M e" and "set cs \<subseteq> M" and "wf_ai e"
  shows "sound M (fold (\<lambda>c e. mark_mine e c) cs e)"
  using assms unfolding sound_def wf_ai_def
  by (auto simp: mark_mine_list_nth true_in_shrink_mine)

lemma sound_mark_safe: "sound M e \<Longrightarrow> c \<notin> M \<Longrightarrow> sound M (mark_safe e c)"
  using sound_mark_safe_list [of M e "[c]"] by simp

lemma sound_mark_mine: "sound M e \<Longrightarrow> wf_ai e \<Longrightarrow> c \<in> M \<Longrightarrow> sound M (mark_mine e c)"
  using sound_mark_mine_list [of M e "[c]"] by simp

lemma true_zero_no_mines:
  "finite (cells s) \<Longrightarrow> true_in M s \<Longrightarrow> count s = 0 \<Longrightarrow> cells s \<inter> M = {}"
  by (simp add: true_in_def)

lemma true_full_all_mines:
  assumes "finite (cells s)" and "true_in M s" and "count s = int (card (cells s))"
  shows "cells s \<subseteq> M"
proof -
  have "card (cells s \<inter> M) = card (cells s)" using assms by (simp add: true_in_def)
  then have "cells s \<inter> M = cells s"
    using assms(1) by (intro card_subset_eq) auto
  then show ?thesis by auto
qed

lemma sound_mark_sentence:
  assumes "wf_ai e" and "r \<in> set (knowledge e)" and "sound M e"
  shows "sound M (mark_sentence r e)"
proof -
  let ?s = "store e ! r"
  have r: "r < length (store e)" and fin: "finite (cells ?s)"
    using assms by (auto simp: wf_ai_def)
  have t: "true_in M ?s" using assms(3) r by (simp add: sound_def)
  have safe: "sound M (fold (\<lambda>c e. mark_safe e c) (set_iter (cells ?s)) e)" if "count ?s = 0"
  proof (rule sound_mark_safe_list [OF assms(3)])
    show "set (set_iter (cells ?s)) \<inter> M = {}"
      using true_zero_no_mines [OF fin t that] fin by simp
  qed
  have mine: "sound M (fold (\<lambda>c e. mark_mine e c) (set_iter (cells ?s)) e)"
    if "count ?s = int (card (cells ?s))"
  proof (rule sound_mark_mine_list [OF assms(3) _ assms(1)])
    show "set (set_iter (cells ?s)) \<subseteq> M"
      using true_full_all_mines [OF fin t that] fin by simp
  qed
  from assms(1,2) show ?thesis
  proof (cases rule: mark_sentence_cases)
    case safes
    with safe show ?thesis by simp
  next
    case mines
    with mine show ?thesis by simp
  next
    case none
    with assms(3) show ?thesis by simp
  qed
qed

lemma sound_mark_fold:
  "wf_ai e \<Longrightarrow> set ks \<subseteq> set (knowledge e) \<Longrightarrow> sound M e \<Longrightarrow> sound M (fold mark_sentence ks e)"
proof (induction ks arbitrary: e)
  case Nil
  then show ?case by simp
next
  case (Cons k ks)
  have s1: "shrinks e (mark_sentence k e)"
    using Cons.prems by (simp add: mark_sentence_shrinks)
  then have "wf_ai (mark_sentence k e)" "set ks \<subseteq> set (knowledge (mark_sentence k e))"
    using Cons.prems shrinks_wf by (auto simp: shrinks_def)
  moreover have "sound M (mark_sentence k e)"
    using Cons.prems by (simp add: sound_mark_sentence)
  ultimately show ?case using Cons.IH by simp
qed

lemma sound_mark_all: "wf_ai e \<Longrightarrow> sound M e \<Longrightarrow> sound M (mark_all e)"
  by (simp add: mark_all_def sound_mark_fold)

section \<open>Keeping \<open>safes\<close> and \<open>mines\<close> apart\<close>

lemma separated_mark_safe_list:
  assumes "wf_ai e" and "separated e" and "set cs \<inter> mines e = {}"
  shows "separated (fold (\<lambda>c e. mark_safe e c) cs e)"
proof -
  have "cells (store (fold (\<lambda>c e. mark_safe e c) cs e) ! r) \<inter> ((set cs \<union> safes e) \<union> mines e) = {}"
    if "r \<in> set (knowledge e)" for r
  proof -
    have "r < length (store e)" using assms(1) that by (simp add: wf_ai_def)
    moreover have "cells (store e ! r) \<inter> (safes e \<union> mines e) = {}"
      using assms(2) that by (simp add: separated_def)
    ultimately show ?thesis using that by (auto simp: mark_safe_list_nth shrink_safe_def)
  qed
  moreover have "(set cs \<union> safes e) \<inter> mines e = {}"
    using assms(2,3) by (auto simp: separated_def)
  ultimately show ?thesis by (simp add: separated_def)
qed

lemma separated_mark_mine_list:
  assumes "wf_ai e" and "separated e" and "set cs \<inter> safes e = {}"
  shows "separated (fold (\<lambda>c e. mark_mine e c) cs e)"
proof -
  have "cells (store (fold (\<lambda>c e. mark_mine e c) cs e) ! r) \<inter> (safes e \<union> (set cs \<union> mines e)) = {}"
    if "r \<in> set (knowledge e)" for r
  proof -
    have "r < length (store e)" using assms(1) that by (simp add: wf_ai_def)
    moreover have "cells (store e ! r) \<inter> (safes e \<union> mines e) = {}"
      using assms(2) that by (simp add: separated_def)
    ultimately show ?thesis using that by (auto simp: mark_mine_list_nth shrink_mine_def)
  qed
  moreover have "safes e \<inter> (set cs \<union> mines e) = {}"
    using assms(2,3) by (auto simp: separated_def)
  ultimately show ?thesis by (simp add: separated_def)
qed

lemma separated_mark_safe:
  "wf_ai e \<Longrightarrow> separated e \<Longrightarrow> c \<notin> mines e \<Longrightarrow> separated (mark_safe e c)"
  using separated_mark_safe_list [of e "[c]"] by simp

lemma separated_mark_mine:
  "wf_ai e \<Longrightarrow> separated e \<Longrightarrow> c \<notin> safes e \<Longrightarrow> separated (mark_mine e c)"
  using separated_mark_mine_list [of e "[c]"] by simp

lemma separated_mark_sentence:
  assumes "wf_ai e" and "r \<in> set (knowledge e)" and "separated e"
  shows "separated (mark_sentence r e)"
proof -
  let ?s = "store e ! r"
  have fin: "finite (cells ?s)" using assms(1,2) by (auto simp: wf_ai_def)
  have d: "cells ?s \<inter> (safes e \<union> mines e) = {}" using assms(2,3) by (simp add: separated_def)
  from assms(1,2) show ?thesis
  proof (cases rule: mark_sentence_cases)
    case safes
    have "set (set_iter (cells ?s)) \<inter> mines e = {}" using d fin by auto
    from separated_mark_safe_list [OF assms(1,3) this] safes(3) show ?thesis by simp
  next
    case mines
    have "set (set_iter (cells ?s)) \<inter> safes e = {}" using d fin by auto
    from separated_mark_mine_list [OF assms(1,3) this] mines(3) show ?thesis by simp
  next
    case none
    with assms(3) show ?thesis by simp
  qed
qed

lemma separated_mark_fold:
  "wf_ai e \<Longrightarrow> set ks \<subseteq> set (knowledge e) \<Longrightarrow> separated e \<Longrightarrow>
   separated (fold mark_sentence ks e)"
proof (induction ks arbitrary: e)
  case Nil
  then show ?case by simp
next
  case (Cons k ks)
  have s1: "shrinks e (mark_sentence k e)"
    using Cons.prems by (simp add: mark_sentence_shrinks)
  then have "wf_ai (mark_sentence k e)" "set ks \<subseteq> set (knowledge (mark_sentence k e))"
    using Cons.prems shrinks_wf by (auto simp: shrinks_def)
  moreover have "separated (mark_sentence k e)"
    using Cons.prems by (simp add: separated_mark_sentence)
  ultimately show ?case using Cons.IH by simp
qed

lemma separated_mark_all: "wf_ai e \<Longrightarrow> separated e \<Longrightarrow> separated (mark_all e)"
  by (simp add: mark_all_def separated_mark_fold)

section \<open>One round of subset inference\<close>

lemma list_remove_Inr:
  "list_remove st ks v = Inr ks' \<Longrightarrow>
   \<exists>a r b. ks = a @ r # b \<and> ks' = a @ b \<and> st ! r = v \<and> (\<forall>x\<in>set a. st ! x \<noteq> v)"
proof (induction ks arbitrary: ks')
  case Nil
  then show ?case by simp
next
  case (Cons k ks)
  show ?case
  proof (cases "st ! k = v")
    case True
    with Cons.prems have "ks' = ks" by simp
    with True have "k # ks = [] @ k # ks \<and> ks' = [] @ ks \<and> st ! k = v \<and> (\<forall>x\<in>set []. st ! x \<noteq> v)"
      by simp
    then show ?thesis by blast
  next
    case False
    with Cons.prems obtain ks1 where r: "list_remove st ks v = Inr ks1" and k: "ks' = k # ks1"
      by (auto split: sum.splits)
    from Cons.IH [OF r] obtain a r b where
      "ks = a @ r # b" "ks1 = a @ b" "st ! r = v" "\<forall>x\<in>set a. st ! x \<noteq> v" by blast
    with False k have "k # ks = (k # a) @ r # b \<and> ks' = (k # a) @ b \<and> st ! r = v \<and>
        (\<forall>x\<in>set (k # a). st ! x \<noteq> v)" by simp
    then show ?thesis by blast
  qed
qed

lemma list_remove_found:
  "r \<in> set ks \<Longrightarrow> st ! r = v \<Longrightarrow> \<exists>ks'. list_remove st ks v = Inr ks'"
  by (induction ks) auto

lemma infers_refl: "wf_ai e \<Longrightarrow> infers M e e"
  by (simp add: infers_def)

lemma infers_trans:
  assumes "infers M e1 e2" and "infers M e2 e3"
  shows "infers M e1 e3"
proof -
  from assms obtain n1 n2 where "store e2 = store e1 @ n1" "store e3 = store e2 @ n2"
    by (auto simp: infers_def)
  then have "store e3 = store e1 @ (n1 @ n2)" by simp
  then have p: "\<exists>new. store e3 = store e1 @ new" by blast
  have w: "e3 = e1 \<or> weight e3 < weight e1"
    using assms by (auto simp: infers_def)
  show ?thesis
    unfolding infers_def
    using p w assms by (simp add: infers_def)
qed

lemma true_in_diff:
  assumes "finite (cells s2)" and "cells s1 \<subseteq> cells s2" and "true_in M s1" and "true_in M s2"
  shows "true_in M \<lparr>cells = cells s2 - cells s1, count = count s2 - count s1\<rparr>"
proof -
  have "cells s2 \<inter> M = ((cells s2 - cells s1) \<inter> M) \<union> (cells s1 \<inter> M)"
    using assms(2) by auto
  moreover have "((cells s2 - cells s1) \<inter> M) \<inter> (cells s1 \<inter> M) = {}" by auto
  moreover have "finite ((cells s2 - cells s1) \<inter> M)" "finite (cells s1 \<inter> M)"
    using assms(1,2) by (auto intro: finite_subset)
  ultimately have "card (cells s2 \<inter> M) = card ((cells s2 - cells s1) \<inter> M) + card (cells s1 \<inter> M)"
    by (metis card_Un_disjoint)
  with assms(3,4) show ?thesis by (simp add: true_in_def)
qed

lemma infer_body_replace:
  assumes wf: "wf_ai e" and r2: "r2 \<in> set (knowledge e)"
    and fin1: "finite (cells s1)"
    and s2: "s2 = store e ! r2"
    and ne: "cells s1 \<noteq> {}" and sub: "cells s1 \<subseteq> cells s2"
    and cd: "card (cells s1) \<noteq> card (cells s2)"
    and t1: "sound M e \<longrightarrow> true_in M s1"
    and new: "new = \<lparr>cells = cells s2 - cells s1, count = count s2 - count s1\<rparr>"
  shows "\<exists>ks'. list_remove (store e @ [new]) (knowledge e @ [length (store e)]) s2 = Inr ks' \<and>
           infers M e (e\<lparr>store := store e @ [new], knowledge := ks'\<rparr>)"
proof -
  let ?st = "store e @ [new]"
  let ?nr = "length (store e)"
  let ?ks = "knowledge e @ [?nr]"
  have r2l: "r2 < length (store e)" using wf r2 by (simp add: wf_ai_def)
  have fin2: "finite (cells s2)" using wf r2l s2 by (simp add: wf_ai_def)
  have old: "?st ! x = store e ! x" if "x \<in> set (knowledge e)" for x
    using wf that by (simp add: wf_ai_def nth_append)
  have "?st ! r2 = s2" using old [OF r2] s2 by simp
  moreover have "r2 \<in> set ?ks" using r2 by simp
  ultimately obtain ks' where rem: "list_remove ?st ?ks s2 = Inr ks'"
    using list_remove_found by blast
  from list_remove_Inr [OF rem] obtain a r b where
    split: "?ks = a @ r # b" and ks': "ks' = a @ b" and r: "?st ! r = s2" by blast
  let ?e' = "e\<lparr>store := ?st, knowledge := ks'\<rparr>"
  have newne: "cells new \<noteq> {}"
  proof
    assume "cells new = {}"
    then have "cells s2 \<subseteq> cells s1" by (simp add: new)
    with sub have "cells s1 = cells s2" by auto
    with cd show False by simp
  qed
  have s2ne: "cells s2 \<noteq> {}" using ne sub by auto
  have setks: "set ?ks = insert r (set ks')" using split ks' by (metis list.set_intros(1) set_append insert_is_Un Un_insert_right list.simps(15) Un_commute sup_assoc)
  have sub': "set ks' \<subseteq> set ?ks" using setks by auto
  \<comment> \<open>well-formedness\<close>
  have wf': "wf_ai ?e'"
  proof -
    have "\<forall>x\<in>set ks'. x < length ?st"
      using sub' wf by (auto simp: wf_ai_def less_Suc_eq)
    moreover have "finite (cells (?st ! q))" if "q < length ?st" for q
    proof (cases "q < ?nr")
      case True
      then show ?thesis using wf by (simp add: wf_ai_def nth_append)
    next
      case False
      with that have "q = ?nr" by simp
      then show ?thesis using fin2 by (simp add: new)
    qed
    ultimately show ?thesis by (simp add: wf_ai_def)
  qed
  \<comment> \<open>weight\<close>
  let ?g = "\<lambda>x. Suc (card (cells (?st ! x)))"
  have "sum_list (map ?g ?ks) = sum_list (map ?g ks') + ?g r"
    unfolding split ks' by simp
  moreover have "sum_list (map ?g ?ks) = weight e + Suc (card (cells new))"
  proof -
    have m: "map ?g (knowledge e) = map (\<lambda>x. Suc (card (cells (store e ! x)))) (knowledge e)"
      by (rule map_cong) (simp_all add: old)
    have "sum_list (map ?g (knowledge e)) = weight e"
      unfolding weight_def by (rule arg_cong [OF m])
    moreover have "sum_list (map ?g ?ks) = sum_list (map ?g (knowledge e)) + ?g ?nr"
      by simp
    ultimately show ?thesis by simp
  qed
  moreover have "weight ?e' = sum_list (map ?g ks')" by (simp add: weight_def)
  moreover have "card (cells new) < card (cells s2)"
  proof -
    have "card (cells s2 - cells s1) = card (cells s2) - card (cells s1)"
      using sub fin1 by (simp add: card_Diff_subset)
    moreover have "0 < card (cells s1)" using ne fin1 by (simp add: card_gt_0_iff)
    moreover have "card (cells s1) \<le> card (cells s2)" using sub fin2 by (simp add: card_mono)
    ultimately show ?thesis by (simp add: new)
  qed
  ultimately have w: "weight ?e' < weight e" using r by simp
  \<comment> \<open>empty sentences\<close>
  have he: "has_empty ?e' \<longleftrightarrow> has_empty e"
  proof
    assume "has_empty ?e'"
    then obtain x where x: "x \<in> set ks'" and c: "cells (?st ! x) = {}"
      by (auto simp: has_empty_def)
    from x sub' have "x \<in> set (knowledge e) \<or> x = ?nr" by auto
    moreover have "x \<noteq> ?nr" using c newne by auto
    ultimately have "x \<in> set (knowledge e)" by simp
    with c old show "has_empty e" by (auto simp: has_empty_def)
  next
    assume "has_empty e"
    then obtain x where x: "x \<in> set (knowledge e)" and c: "cells (store e ! x) = {}"
      by (auto simp: has_empty_def)
    have "x \<noteq> r" using c r s2ne old [OF x] by auto
    moreover have "x \<in> set ?ks" using x by simp
    ultimately have "x \<in> set ks'" using setks by auto
    moreover have "cells (?st ! x) = {}" using c old [OF x] by simp
    ultimately have "\<exists>x\<in>set ks'. cells (?st ! x) = {}" by blast
    then show "has_empty ?e'" by (simp add: has_empty_def)
  qed
  \<comment> \<open>soundness\<close>
  have snd: "sound M ?e'" if s: "sound M e"
  proof -
    have "true_in M (?st ! q)" if "q < length ?st" for q
    proof (cases "q < ?nr")
      case True
      then show ?thesis using s by (simp add: sound_def nth_append)
    next
      case False
      with that have q: "q = ?nr" by simp
      have "true_in M s2" using s r2l s2 by (simp add: sound_def)
      moreover have "true_in M s1" using t1 s by simp
      ultimately have "true_in M new"
        unfolding new using fin2 sub by (intro true_in_diff)
      with q show ?thesis by simp
    qed
    with s show ?thesis by (simp add: sound_def)
  qed
  \<comment> \<open>separation\<close>
  have sep: "separated ?e'" if s: "separated e"
  proof -
    have "cells (?st ! x) \<inter> (safes e \<union> mines e) = {}" if "x \<in> set ks'" for x
    proof (cases "x = ?nr")
      case True
      have "cells (store e ! r2) \<inter> (safes e \<union> mines e) = {}"
        using s r2 by (simp add: separated_def)
      then have "cells new \<inter> (safes e \<union> mines e) = {}"
        unfolding new s2 by auto
      with True show ?thesis by simp
    next
      case False
      with that sub' have x: "x \<in> set (knowledge e)" by auto
      then show ?thesis using s old [OF x] by (simp add: separated_def)
    qed
    with s show ?thesis by (simp add: separated_def)
  qed
  have len: "length ks' = length (knowledge e)"
    using list_remove_length [OF rem] by simp
  have "infers M e ?e'"
    unfolding infers_def using wf' len w he snd sep by simp
  with rem show ?thesis by blast
qed

lemma infers_length_store: "infers M e e' \<Longrightarrow> r < length (store e) \<Longrightarrow> r < length (store e')"
  by (auto simp: infers_def)

lemma infer_body_infers:
  assumes wf: "wf_ai e" and r1: "r1 < length (store e)" and r2: "r2 \<in> set (knowledge e)"
  shows "\<exists>e'. infer_body r1 r2 e = Inr e' \<and> infers M e e'"
proof -
  let ?s1 = "store e ! r1" and ?s2 = "store e ! r2"
  let ?new = "\<lparr>cells = cells ?s2 - cells ?s1, count = count ?s2 - count ?s1\<rparr>"
  have fin1: "finite (cells ?s1)" using wf r1 by (simp add: wf_ai_def)
  show ?thesis
  proof (cases "\<not> (?s1 = ?s2 \<or> card (cells ?s1) = 0 \<or> card (cells ?s2) = 0) \<and>
      cells ?s1 \<subseteq> cells ?s2 \<and> card (cells ?s1) \<noteq> card (cells ?s2)")
    case True
    then have ne: "cells ?s1 \<noteq> {}" by auto
    have t1: "sound M e \<longrightarrow> true_in M ?s1" using r1 by (simp add: sound_def)
    from infer_body_replace [OF wf r2 fin1 refl ne _ _ t1 refl] True
    obtain ks' where rem: "list_remove (store e @ [?new]) (knowledge e @ [length (store e)]) ?s2 = Inr ks'"
      and inf: "infers M e (e\<lparr>store := store e @ [?new], knowledge := ks'\<rparr>)"
      by blast
    have "infer_body r1 r2 e = Inr (e\<lparr>store := store e @ [?new], knowledge := ks'\<rparr>)"
      unfolding infer_body_def Let_def using True rem by simp
    with inf show ?thesis by blast
  next
    case False
    then have "infer_body r1 r2 e = Inr e"
      unfolding infer_body_def Let_def by auto
    with wf show ?thesis by (simp add: infers_refl)
  qed
qed

lemma infer_inner_infers:
  "wf_ai e \<Longrightarrow> r1 < length (store e) \<Longrightarrow> \<exists>e'. infer_inner r1 j e = Inr e' \<and> infers M e e'"
proof (induction r1 j e rule: infer_inner.induct)
  case (1 r1 j e)
  show ?case
  proof (cases "j < length (knowledge e)")
    case False
    then have "infer_inner r1 j e = Inr e" by (simp add: infer_inner.simps [of r1 j e])
    with "1.prems" show ?thesis by (simp add: infers_refl)
  next
    case True
    then have "knowledge e ! j \<in> set (knowledge e)" by simp
    from infer_body_infers [OF "1.prems" this]
    obtain e1 where b: "infer_body r1 (knowledge e ! j) e = Inr e1" and i1: "infers M e e1"
      by blast
    have "wf_ai e1" "r1 < length (store e1)"
      using i1 "1.prems" by (auto simp: infers_def)
    from "1.IH" [OF True b this]
    obtain e' where r: "infer_inner r1 (Suc j) e1 = Inr e'" and i2: "infers M e1 e'"
      by blast
    have "infer_inner r1 j e = Inr e'"
      using True b r by (simp add: infer_inner.simps [of r1 j e])
    with infers_trans [OF i1 i2] show ?thesis by blast
  qed
qed

lemma infer_outer_infers:
  "wf_ai e \<Longrightarrow> \<exists>e'. infer_outer i e = Inr e' \<and> infers M e e'"
proof (induction i e rule: infer_outer.induct)
  case (1 i e)
  show ?case
  proof (cases "i < length (knowledge e)")
    case False
    then have "infer_outer i e = Inr e" by (simp add: infer_outer.simps [of i e])
    with "1.prems" show ?thesis by (simp add: infers_refl)
  next
    case True
    then have "knowledge e ! i \<in> set (knowledge e)" by simp
    with "1.prems" have "knowledge e ! i < length (store e)" by (simp add: wf_ai_def)
    from infer_inner_infers [OF "1.prems" this]
    obtain e1 where b: "infer_inner (knowledge e ! i) 0 e = Inr e1" and i1: "infers M e e1"
      by blast
    have "wf_ai e1" using i1 by (simp add: infers_def)
    from "1.IH" [OF True b this]
    obtain e' where r: "infer_outer (Suc i) e1 = Inr e'" and i2: "infers M e1 e'"
      by blast
    have "infer_outer i e = Inr e'"
      using True b r by (simp add: infer_outer.simps [of i e])
    with infers_trans [OF i1 i2] show ?thesis by blast
  qed
qed

section \<open>Removing the empty sentences\<close>

lemma list_remove_first:
  "\<forall>x\<in>set pre. st ! x \<noteq> v \<Longrightarrow> st ! r = v \<Longrightarrow> list_remove st (pre @ r # rs) v = Inr (pre @ rs)"
  by (induction pre) auto

lemma remove_empty_filter:
  "wf_ai e \<Longrightarrow> knowledge e = pre @ rs \<Longrightarrow> \<forall>x\<in>set pre. cells (store e ! x) \<noteq> {} \<Longrightarrow>
   remove_empty rs e = Inr (e\<lparr>knowledge := pre @ filter (\<lambda>r. cells (store e ! r) \<noteq> {}) rs\<rparr>)"
proof (induction rs arbitrary: pre e)
  case Nil
  then show ?case by simp
next
  case (Cons r rs)
  have "r \<in> set (knowledge e)" using Cons.prems(2) by simp
  then have "r < length (store e)" using Cons.prems(1) by (simp add: wf_ai_def)
  then have fin: "finite (cells (store e ! r))" using Cons.prems(1) by (simp add: wf_ai_def)
  show ?case
  proof (cases "cells (store e ! r) = {}")
    case True
    let ?e1 = "e\<lparr>knowledge := pre @ rs\<rparr>"
    have "\<forall>x\<in>set pre. store e ! x \<noteq> store e ! r"
      using Cons.prems(3) True by auto
    then have rem: "list_remove (store e) (knowledge e) (store e ! r) = Inr (pre @ rs)"
      unfolding Cons.prems(2) by (intro list_remove_first) simp_all
    have "wf_ai ?e1" using Cons.prems(1,2) by (simp add: wf_ai_def)
    moreover have "knowledge ?e1 = pre @ rs" by simp
    moreover have "\<forall>x\<in>set pre. cells (store ?e1 ! x) \<noteq> {}" using Cons.prems(3) by simp
    ultimately have "remove_empty rs ?e1 =
        Inr (?e1\<lparr>knowledge := pre @ filter (\<lambda>r. cells (store ?e1 ! r) \<noteq> {}) rs\<rparr>)"
      by (rule Cons.IH)
    with True rem show ?thesis by simp
  next
    case False
    then have c: "card (cells (store e ! r)) \<noteq> 0" using fin by simp
    have "knowledge e = (pre @ [r]) @ rs" using Cons.prems(2) by simp
    moreover have "\<forall>x\<in>set (pre @ [r]). cells (store e ! x) \<noteq> {}"
      using Cons.prems(3) False by simp
    ultimately have "remove_empty rs e =
        Inr (e\<lparr>knowledge := (pre @ [r]) @ filter (\<lambda>r. cells (store e ! r) \<noteq> {}) rs\<rparr>)"
      by (rule Cons.IH [OF Cons.prems(1)])
    with False c show ?thesis by simp
  qed
qed

lemma remove_empty_knowledge:
  "wf_ai e \<Longrightarrow>
   remove_empty (knowledge e) e =
     Inr (e\<lparr>knowledge := filter (\<lambda>r. cells (store e ! r) \<noteq> {}) (knowledge e)\<rparr>)"
  using remove_empty_filter [of e "[]" "knowledge e"] by simp

lemma filter_sum_less:
  fixes g :: "'a \<Rightarrow> nat"
  assumes "\<And>x. 0 < g x"
  shows "filter P xs = xs \<or> sum_list (map g (filter P xs)) < sum_list (map g xs)"
proof (induction xs)
  case Nil
  then show ?case by simp
next
  case (Cons x xs)
  have le: "sum_list (map g (filter P xs)) \<le> sum_list (map g xs)"
    using Cons by auto
  show ?case
  proof (cases "P x")
    case True
    with Cons show ?thesis by auto
  next
    case False
    with le assms [of x] show ?thesis by simp
  qed
qed

lemma filter_same_length: "length (filter P xs) = length xs \<Longrightarrow> filter P xs = xs"
proof (induction xs)
  case Nil
  then show ?case by simp
next
  case (Cons x xs)
  have le: "length (filter P xs) \<le> length xs" by simp
  show ?case
  proof (cases "P x")
    case True
    with Cons show ?thesis by simp
  next
    case False
    with Cons.prems le show ?thesis by simp
  qed
qed

lemma weight_shrinks:
  assumes "wf_ai e" and "shrinks e e'"
  shows "weight e' \<le> weight e"
proof -
  have "card (cells (store e' ! r)) \<le> card (cells (store e ! r))" if "r \<in> set (knowledge e)" for r
  proof -
    have r: "r < length (store e)" using assms(1) that by (simp add: wf_ai_def)
    then have "cells (store e' ! r) \<subseteq> cells (store e ! r)" using assms(2) by (simp add: shrinks_def)
    moreover have "finite (cells (store e ! r))" using assms(1) r by (simp add: wf_ai_def)
    ultimately show ?thesis by (rule card_mono [rotated])
  qed
  then have "sum_list (map (\<lambda>r. Suc (card (cells (store e' ! r)))) (knowledge e))
      \<le> sum_list (map (\<lambda>r. Suc (card (cells (store e ! r)))) (knowledge e))"
    by (intro sum_list_mono) simp
  moreover have "knowledge e' = knowledge e" using assms(2) by (simp add: shrinks_def)
  ultimately show ?thesis by (simp add: weight_def)
qed

section \<open>One round of the loop\<close>

lemma knowledge_pass_wf:
  assumes wf: "wf_ai e"
  obtains e' b where "knowledge_pass e = Inr (e', b)" and "wf_ai e'"
    and "sound M e \<longrightarrow> sound M e'" and "separated e \<longrightarrow> separated e'"
    and "height e' = height e" and "width e' = width e"
    and "b \<longrightarrow> e' = e" and "\<not> b \<longrightarrow> weight e' < weight e"
proof -
  let ?e4 = "mark_all e"
  have s4: "shrinks e ?e4" using wf by (rule mark_all_shrinks)
  have wf4: "wf_ai ?e4" using wf s4 by (rule shrinks_wf)
  have k4: "knowledge ?e4 = knowledge e" using s4 by (simp add: shrinks_def)
  have w4: "weight ?e4 \<le> weight e" using wf s4 by (rule weight_shrinks)
  obtain e5 where r5: "(if 2 \<le> length (knowledge ?e4) then infer_outer 0 ?e4 else Inr ?e4) = Inr e5"
    and i5: "infers M ?e4 e5"
  proof (cases "2 \<le> length (knowledge ?e4)")
    case True
    from infer_outer_infers [OF wf4, of 0 M] obtain e5 where
      "infer_outer 0 ?e4 = Inr e5" "infers M ?e4 e5" by blast
    with True that show thesis by simp
  next
    case False
    with infers_refl [OF wf4, of M] that show thesis by simp
  qed
  have wf5: "wf_ai e5" using i5 by (simp add: infers_def)
  have w5: "e5 = ?e4 \<or> weight e5 < weight ?e4" using i5 by (simp add: infers_def)
  have l5: "length (knowledge e5) = length (knowledge e)" using i5 k4 by (simp add: infers_def)
  let ?P = "\<lambda>r. cells (store e5 ! r) \<noteq> {}"
  let ?e6 = "e5\<lparr>knowledge := filter ?P (knowledge e5)\<rparr>"
  have r6: "remove_empty (knowledge e5) e5 = Inr ?e6"
    using wf5 by (rule remove_empty_knowledge)
  let ?b = "map (\<lambda>r. store ?e6 ! r) (knowledge ?e6) = map (\<lambda>r. store ?e6 ! r) (knowledge e)"
  have res: "knowledge_pass e = Inr (?e6, ?b)"
    unfolding knowledge_pass_def Let_def using r5 r6 by simp
  have wf6: "wf_ai ?e6" using wf5 by (simp add: wf_ai_def)
  have snd6: "sound M e \<longrightarrow> sound M ?e6"
  proof
    assume "sound M e"
    then have "sound M ?e4" using wf by (simp add: sound_mark_all)
    then have "sound M e5" using i5 by (simp add: infers_def)
    then show "sound M ?e6" by (simp add: sound_def)
  qed
  have sep6: "separated e \<longrightarrow> separated ?e6"
  proof
    assume "separated e"
    then have "separated ?e4" using wf by (simp add: separated_mark_all)
    then have "separated e5" using i5 by (simp add: infers_def)
    then show "separated ?e6" by (simp add: separated_def)
  qed
  have hw: "height ?e6 = height e" "width ?e6 = width e"
    using i5 s4 by (simp_all add: infers_def shrinks_def)
  have w6: "filter ?P (knowledge e5) = knowledge e5 \<or> weight ?e6 < weight e5"
    unfolding weight_def using filter_sum_less [of "\<lambda>r. Suc (card (cells (store e5 ! r)))" ?P "knowledge e5"]
    by simp
  have same: "?b" if "e5 = ?e4" and "filter ?P (knowledge e5) = knowledge e5"
    using that k4 by simp
  have brk: "?e6 = e" if b: "?b"
  proof -
    from arg_cong [OF b, of length]
    have "length (filter ?P (knowledge e5)) = length (knowledge e)" by simp
    with l5 have f: "filter ?P (knowledge e5) = knowledge e5"
      by (simp add: filter_same_length)
    then have e6: "?e6 = e5" by simp
    have "\<forall>r\<in>set (knowledge e5). ?P r" using f unfolding filter_id_conv .
    then have "\<not> has_empty e5" by (simp add: has_empty_def)
    then have "\<not> has_empty ?e4" using i5 by (simp add: infers_def)
    with mark_all_change [OF wf] have e4: "?e4 = e" by auto
    obtain new where st: "store e5 = store e @ new" using i5 e4 by (auto simp: infers_def)
    have old: "store e5 ! r = store e ! r" if "r \<in> set (knowledge e)" for r
      using wf that st by (simp add: wf_ai_def nth_append)
    have "map (\<lambda>r. store e5 ! r) (knowledge e) = map (\<lambda>r. store e ! r) (knowledge e)"
      by (rule map_cong) (simp_all add: old)
    with b f have "map (\<lambda>r. store e5 ! r) (knowledge e5) = map (\<lambda>r. store e ! r) (knowledge e)"
      by simp
    from arg_cong [OF this, of "map (\<lambda>s. Suc (card (cells s)))"]
    have "map (\<lambda>r. Suc (card (cells (store e5 ! r)))) (knowledge e5)
        = map (\<lambda>r. Suc (card (cells (store e ! r)))) (knowledge e)"
      by (simp add: comp_def)
    then have "weight e5 = weight e" by (simp add: weight_def)
    with w5 e4 have "e5 = e" by simp
    with e6 show ?thesis by simp
  qed
  have dec: "weight ?e6 < weight e" if nb: "\<not> ?b"
  proof -
    have "\<not> (e5 = ?e4 \<and> filter ?P (knowledge e5) = knowledge e5)"
      using same nb by blast
    moreover have "weight ?e6 \<le> weight e5" using w6 by auto
    moreover have "weight e5 \<le> weight ?e4" using w5 by auto
    ultimately show ?thesis using w4 w5 w6 by auto
  qed
  have "?b \<longrightarrow> ?e6 = e" using brk by blast
  moreover have "\<not> ?b \<longrightarrow> weight ?e6 < weight e" using dec by blast
  ultimately show thesis
    by (rule that [OF res wf6 snd6 sep6 hw])
qed

section \<open>The loop as a whole\<close>

lemma propagate_wf:
  "wf_ai e \<Longrightarrow>
   \<exists>e'. propagate e = Some (Inr e') \<and> wf_ai e' \<and> (sound M e \<longrightarrow> sound M e') \<and>
        (separated e \<longrightarrow> separated e') \<and>
        height e' = height e \<and> width e' = width e \<and> knowledge_pass e' = Inr (e', True)"
proof (induction "weight e" arbitrary: e rule: less_induct)
  case less
  from knowledge_pass_wf [OF less.prems, of M] obtain e1 b where
    kp: "knowledge_pass e = Inr (e1, b)" and wf1: "wf_ai e1"
    and s1: "sound M e \<longrightarrow> sound M e1" and p1: "separated e \<longrightarrow> separated e1"
    and hw: "height e1 = height e" "width e1 = width e"
    and brk: "b \<longrightarrow> e1 = e" and dec: "\<not> b \<longrightarrow> weight e1 < weight e"
    by blast
  show ?case
  proof (cases b)
    case True
    with brk have e1: "e1 = e" by simp
    have "propagate e = Some (Inr e)"
      using kp True e1 by (subst propagate.simps) simp
    moreover have "knowledge_pass e = Inr (e, True)" using kp True e1 by simp
    ultimately show ?thesis using less.prems by simp
  next
    case False
    with dec have "weight e1 < weight e" by simp
    from less.hyps [OF this wf1] obtain e' where
      p: "propagate e1 = Some (Inr e')" and r: "wf_ai e'" "sound M e1 \<longrightarrow> sound M e'"
        "separated e1 \<longrightarrow> separated e'"
        "height e' = height e1" "width e' = width e1" "knowledge_pass e' = Inr (e', True)"
      by blast
    have "propagate e = Some (Inr e')"
      using kp False p by (subst propagate.simps) simp
    with r s1 p1 hw show ?thesis by simp
  qed
qed

lemma filter_split_length:
  assumes "\<And>x. x \<in> set xs \<Longrightarrow> Q x \<longleftrightarrow> A x \<or> B x" and "\<And>x. x \<in> set xs \<Longrightarrow> \<not> (A x \<and> B x)"
  shows "length (filter Q xs) = length (filter A xs) + length (filter B xs)"
  using assms by (induction xs) auto

lemma neighbourhood_set:
  "set (neighbourhood c) = {ij. \<bar>fst ij - fst c\<bar> \<le> 1 \<and> \<bar>snd ij - snd c\<bar> \<le> 1}"
proof (cases c)
  case (Pair a b)
  have "(i, j) \<in> set (neighbourhood (a, b)) \<longleftrightarrow> \<bar>i - a\<bar> \<le> 1 \<and> \<bar>j - b\<bar> \<le> 1" for i j
  proof -
    have "(i, j) \<in> set (neighbourhood (a, b)) \<longleftrightarrow> i \<in> {a - 1 .. a + 1} \<and> j \<in> {b - 1 .. b + 1}"
      by (force simp: neighbourhood_def)
    also have "\<dots> \<longleftrightarrow> \<bar>i - a\<bar> \<le> 1 \<and> \<bar>j - b\<bar> \<le> 1" by auto
    finally show ?thesis .
  qed
  with Pair show ?thesis by auto
qed

lemma upto_three: "[i - 1 .. i + 1] = [i - 1, i, i + 1]"
proof -
  have "[i - 1 .. i + 1] = (i - 1) # [i .. i + 1]" by (simp add: upto_rec1)
  also have "[i .. i + 1] = i # [i + 1 .. i + 1]" by (simp add: upto_rec1)
  finally show ?thesis by simp
qed

lemma neighbourhood_distinct: "distinct (neighbourhood c)"
  by (cases c) (simp add: neighbourhood_def upto_three)

section \<open>The new sentence of an observation\<close>

lemma near_by_fold:
  "fold (near_by_step e c) xs (k, N) =
     (k - int (length (filter (\<lambda>ij. unresolved e c ij \<and> ij \<in> mines e) xs)),
      N \<union> set (filter (\<lambda>ij. unresolved e c ij \<and> ij \<notin> mines e) xs))"
proof (induction xs arbitrary: k N)
  case Nil
  then show ?case by simp
next
  case (Cons x xs)
  show ?case
  proof (cases "unresolved e c x")
    case False
    then have "near_by_step e c x (k, N) = (k, N)"
      by (auto simp: near_by_step_def unresolved_def)
    with False Cons show ?thesis by simp
  next
    case True
    show ?thesis
    proof (cases "x \<in> mines e")
      case m: True
      with True have "near_by_step e c x (k, N) = (k - 1, N)"
        by (auto simp: near_by_step_def unresolved_def)
      with True m Cons show ?thesis by simp
    next
      case m: False
      with True have "near_by_step e c x (k, N) = (k, insert x N)"
        by (auto simp: near_by_step_def unresolved_def)
      with True m Cons show ?thesis by simp
    qed
  qed
qed

lemma add_sentence_eq:
  "add_sentence e c cnt =
     (let e2 = mark_safe (e\<lparr>moves_made := insert c (moves_made e)\<rparr>) c;
          new = \<lparr>cells = set (filter (\<lambda>ij. unresolved e2 c ij \<and> ij \<notin> mines e2) (neighbourhood c)),
                 count = cnt - int (length (filter (\<lambda>ij. unresolved e2 c ij \<and> ij \<in> mines e2)
                                             (neighbourhood c)))\<rparr>
      in e2\<lparr>store := store e2 @ [new], knowledge := knowledge e2 @ [length (store e2)]\<rparr>)"
  by (simp add: add_sentence_def Let_def near_by_fold)

lemma nearby_mines_eq:
  "nearby_mines h w M c =
     int (length (filter (\<lambda>ij. ij \<noteq> c \<and> 0 \<le> fst ij \<and> fst ij < h \<and> 0 \<le> snd ij \<and> snd ij < w \<and> ij \<in> M)
                  (neighbourhood c)))"
proof -
  have "fold (\<lambda>ij cnt.
            if ij = c then cnt
            else if 0 \<le> fst ij \<and> fst ij < h \<and> 0 \<le> snd ij \<and> snd ij < w
              then (if ij \<in> M then cnt + 1 else cnt)
              else cnt) xs k =
        k + int (length (filter (\<lambda>ij. ij \<noteq> c \<and> 0 \<le> fst ij \<and> fst ij < h \<and> 0 \<le> snd ij \<and> snd ij < w \<and> ij \<in> M) xs))"
    for xs k
    by (induction xs arbitrary: k) auto
  then show ?thesis by (simp add: nearby_mines_def)
qed

lemma add_sentence_fields [simp]:
  "height (add_sentence e c cnt) = height e" "width (add_sentence e c cnt) = width e"
  "moves_made (add_sentence e c cnt) = insert c (moves_made e)"
  "safes (add_sentence e c cnt) = insert c (safes e)"
  "mines (add_sentence e c cnt) = mines e"
  "random_attr (add_sentence e c cnt) = random_attr e"
  "knowledge (add_sentence e c cnt) = knowledge e @ [length (store e)]"
  "length (store (add_sentence e c cnt)) = Suc (length (store e))"
  by (simp_all add: add_sentence_eq Let_def)

lemma add_sentence_old:
  "q < length (store e) \<Longrightarrow> store (add_sentence e c cnt) ! q = store (mark_safe e c) ! q"
  by (simp add: add_sentence_eq Let_def nth_append) (simp add: mark_safe_def)

lemma add_sentence_new:
  "store (add_sentence e c cnt) ! length (store e) =
     (let e2 = mark_safe (e\<lparr>moves_made := insert c (moves_made e)\<rparr>) c in
      \<lparr>cells = set (filter (\<lambda>ij. unresolved e2 c ij \<and> ij \<notin> mines e2) (neighbourhood c)),
       count = cnt - int (length (filter (\<lambda>ij. unresolved e2 c ij \<and> ij \<in> mines e2)
                                   (neighbourhood c)))\<rparr>)"
proof -
  let ?e2 = "mark_safe (e\<lparr>moves_made := insert c (moves_made e)\<rparr>) c"
  have "(store ?e2 @ [x]) ! length (store e) = x" for x
    using nth_append_length [of "store ?e2" x "[]"] by simp
  then show ?thesis by (simp add: add_sentence_eq Let_def del: set_filter)
qed

lemma add_sentence_wf:
  assumes "wf_ai e"
  shows "wf_ai (add_sentence e c cnt)"
proof -
  let ?e1 = "e\<lparr>moves_made := insert c (moves_made e)\<rparr>"
  let ?e2 = "mark_safe ?e1 c"
  have "wf_ai ?e1" using assms by (simp add: wf_ai_def)
  then have wf2: "wf_ai ?e2" using shrinks_mark_safe by (rule shrinks_wf)
  have "finite (cells (store (add_sentence e c cnt) ! q))" if "q < Suc (length (store e))" for q
  proof (cases "q < length (store e)")
    case True
    moreover have "store ?e2 = store (mark_safe e c)" by (simp add: mark_safe_def)
    ultimately show ?thesis using wf2 by (simp add: add_sentence_old wf_ai_def)
  next
    case False
    with that have "q = length (store e)" by simp
    then show ?thesis by (simp add: add_sentence_new Let_def)
  qed
  moreover have "\<forall>r\<in>set (knowledge e). r < length (store e)"
    using assms by (simp add: wf_ai_def)
  ultimately show ?thesis by (auto simp: wf_ai_def less_Suc_eq)
qed

lemma add_sentence_sound:
  assumes wf: "wf_ai e" and s: "sound M e" and c: "c \<notin> M"
    and cnt: "cnt = nearby_mines (height e) (width e) M c"
  shows "sound M (add_sentence e c cnt)"
proof -
  let ?e1 = "e\<lparr>moves_made := insert c (moves_made e)\<rparr>"
  let ?e2 = "mark_safe ?e1 c"
  let ?xs = "neighbourhood c"
  let ?A = "\<lambda>ij. unresolved ?e2 c ij \<and> ij \<in> mines ?e2"
  let ?B = "\<lambda>ij. unresolved ?e2 c ij \<and> ij \<notin> mines ?e2"
  let ?Q = "\<lambda>ij. ij \<noteq> c \<and> 0 \<le> fst ij \<and> fst ij < height e \<and> 0 \<le> snd ij \<and> snd ij < width e \<and> ij \<in> M"
  let ?new = "\<lparr>cells = set (filter ?B ?xs), count = cnt - int (length (filter ?A ?xs))\<rparr>"
  have "sound M ?e1" using s c by (simp add: sound_def)
  then have s2: "sound M ?e2" using c by (rule sound_mark_safe)
  have "length (filter ?Q ?xs) = length (filter ?A ?xs) + length (filter (\<lambda>ij. ?B ij \<and> ij \<in> M) ?xs)"
    using s2 by (intro filter_split_length) (auto simp: unresolved_def sound_def)
  moreover have "set (filter ?B ?xs) \<inter> M = set (filter (\<lambda>ij. ?B ij \<and> ij \<in> M) ?xs)" by auto
  moreover have "card (set (filter (\<lambda>ij. ?B ij \<and> ij \<in> M) ?xs)) = length (filter (\<lambda>ij. ?B ij \<and> ij \<in> M) ?xs)"
    by (intro distinct_card distinct_filter neighbourhood_distinct)
  ultimately have t: "true_in M ?new"
    by (simp add: true_in_def cnt nearby_mines_eq)
  have "true_in M (store (add_sentence e c cnt) ! q)" if "q < Suc (length (store e))" for q
  proof (cases "q < length (store e)")
    case True
    moreover have "store ?e2 = store (mark_safe e c)" by (simp add: mark_safe_def)
    ultimately show ?thesis using s2 by (simp add: add_sentence_old sound_def)
  next
    case False
    with that have "q = length (store e)" by simp
    then show ?thesis using t by (simp add: add_sentence_new Let_def del: set_filter)
  qed
  then show ?thesis using s c by (auto simp: sound_def)
qed

lemma add_sentence_separated:
  assumes wf: "wf_ai e" and sep: "separated e" and c: "c \<notin> mines e"
  shows "separated (add_sentence e c cnt)"
proof -
  let ?e1 = "e\<lparr>moves_made := insert c (moves_made e)\<rparr>"
  let ?e2 = "mark_safe ?e1 c"
  have wf1: "wf_ai ?e1" using wf by (simp add: wf_ai_def)
  have "separated ?e1" using sep by (simp add: separated_def)
  from separated_mark_safe [OF wf1 this] c have s2: "separated ?e2" by simp
  have wf2: "wf_ai ?e2" using wf1 shrinks_mark_safe by (rule shrinks_wf)
  have st: "store ?e2 = store (mark_safe e c)" by (simp add: mark_safe_def)
  have "cells (store (add_sentence e c cnt) ! r) \<inter> (safes ?e2 \<union> mines ?e2) = {}"
    if "r \<in> set (knowledge e @ [length (store e)])" for r
  proof (cases "r = length (store e)")
    case True
    then show ?thesis
      by (auto simp: add_sentence_new Let_def unresolved_def)
  next
    case False
    with that have r: "r \<in> set (knowledge ?e2)" by simp
    then have "r < length (store e)" using wf by (simp add: wf_ai_def)
    then have "store (add_sentence e c cnt) ! r = store ?e2 ! r"
      by (simp add: add_sentence_old st)
    with s2 r show ?thesis by (simp add: separated_def)
  qed
  moreover have "safes ?e2 \<inter> mines ?e2 = {}" using s2 by (simp add: separated_def)
  ultimately show ?thesis by (simp add: separated_def)
qed

section \<open>Properties of \<open>add_knowledge\<close>\<close>

lemma add_knowledge_wf:
  assumes "wf_ai e"
  shows "\<exists>e'. add_knowledge e c cnt = Some (Inr e') \<and> wf_ai e' \<and>
           height e' = height e \<and> width e' = width e \<and>
           (sound M e \<and> c \<notin> M \<and> cnt = nearby_mines (height e) (width e) M c \<longrightarrow> sound M e') \<and>
           (separated e \<and> c \<notin> mines e \<longrightarrow> separated e') \<and>
           knowledge_pass e' = Inr (e', True)"
proof -
  let ?e1 = "add_sentence e c cnt"
  have wf1: "wf_ai ?e1" using assms by (rule add_sentence_wf)
  from propagate_wf [OF wf1, of M] obtain e' where
    p: "propagate ?e1 = Some (Inr e')" and r: "wf_ai e'" "sound M ?e1 \<longrightarrow> sound M e'"
      "height e' = height ?e1" "width e' = width ?e1" "knowledge_pass e' = Inr (e', True)"
    and q: "separated ?e1 \<longrightarrow> separated e'"
    by blast
  have "sound M e'" if "sound M e" "c \<notin> M" "cnt = nearby_mines (height e) (width e) M c"
    using add_sentence_sound [OF assms that] r(2) by simp
  moreover have "separated e'" if "separated e" "c \<notin> mines e"
    using add_sentence_separated [OF assms that] q by simp
  ultimately show ?thesis using p r by (simp add: add_knowledge_def)
qed

lemma init_wf: "wf_ai (init_ai h w)"
  by (simp add: wf_ai_def init_ai_def)

lemma init_sound: "sound M (init_ai h w)"
  by (simp add: sound_def init_ai_def)

lemma run_sound:
  "wf_ai e \<Longrightarrow> sound M e \<Longrightarrow>
   \<forall>(c, cnt)\<in>set obs. c \<notin> M \<and> cnt = nearby_mines (height e) (width e) M c \<Longrightarrow>
   \<exists>e'. run e obs = Some (Inr e') \<and> wf_ai e' \<and> sound M e'"
proof (induction obs arbitrary: e)
  case Nil
  then show ?case by simp
next
  case (Cons ob obs)
  obtain c cnt where ob: "ob = (c, cnt)" by (cases ob)
  from Cons.prems(3) ob have c: "c \<notin> M" "cnt = nearby_mines (height e) (width e) M c"
    by simp_all
  from add_knowledge_wf [OF Cons.prems(1), of c cnt M] Cons.prems(2) c
  obtain e1 where a: "add_knowledge e c cnt = Some (Inr e1)" and wf1: "wf_ai e1"
    and hw: "height e1 = height e" "width e1 = width e" and s1: "sound M e1"
    by blast
  have "\<forall>(c, cnt)\<in>set obs. c \<notin> M \<and> cnt = nearby_mines (height e1) (width e1) M c"
    using Cons.prems(3) hw by simp
  from Cons.IH [OF wf1 s1 this] obtain e' where
    "run e1 obs = Some (Inr e')" "wf_ai e'" "sound M e'" by blast
  with a ob show ?case by simp
qed

text \<open>
  Claim C1. Let \<open>M\<close> be any mine assignment and let every observation \<open>(c, cnt)\<close> of a sequence
  reveal a cell that is not a mine together with the board's true count
  \<open>nearby_mines h w M c\<close>. Then the sequence of \<open>add_knowledge\<close> calls, started in the
  initial state, returns normally, and in the final state every cell of \<open>mines\<close> is in \<open>M\<close> and
  no cell of \<open>safes\<close> is.
\<close>

theorem add_knowledge_sound:
  assumes "\<forall>(c, cnt)\<in>set obs. c \<notin> M \<and> cnt = nearby_mines h w M c"
  shows "\<exists>e'. run (init_ai h w) obs = Some (Inr e') \<and> mines e' \<subseteq> M \<and> safes e' \<inter> M = {}"
proof -
  have "\<forall>(c, cnt)\<in>set obs. c \<notin> M \<and>
      cnt = nearby_mines (height (init_ai h w)) (width (init_ai h w)) M c"
    using assms by (simp add: init_ai_def)
  from run_sound [OF init_wf init_sound this] show ?thesis
    by (auto simp: sound_def)
qed

lemma reachable_wf: "reachable e \<Longrightarrow> wf_ai e"
proof (induction rule: reachable.induct)
  case (init h w)
  show ?case by (rule init_wf)
next
  case (mark_mine e c)
  then show ?case using shrinks_mark_mine shrinks_wf by blast
next
  case (mark_safe e c)
  then show ?case using shrinks_mark_safe shrinks_wf by blast
next
  case (add_knowledge e c cnt e')
  with add_knowledge_wf [OF add_knowledge.IH, of c cnt "{}"] show ?case by simp
next
  case (make_safe_move e iter)
  then show ?case by (simp add: make_safe_move_def)
next
  case (make_random_move e iter choice)
  then show ?case by (simp add: make_random_move_def Let_def wf_ai_def)
qed

text \<open>
  Claim C2. In every state the public operations reach, a call of \<open>add_knowledge\<close> returns
  normally: the \<open>while True\<close> loop, started on the state with the new sentence, ends after
  finitely many rounds (it returns \<open>Some\<close>) and without an exception (\<open>Inr\<close>).
\<close>

theorem propagation_terminates:
  assumes "reachable e"
  shows "\<exists>e'. propagate (add_sentence e c cnt) = Some (Inr e')"
proof -
  have "wf_ai (add_sentence e c cnt)"
    using assms by (intro add_sentence_wf reachable_wf)
  from propagate_wf [OF this, of "{}"] show ?thesis by blast
qed

text \<open>
  Claim C7. From a well-formed state (every reachable state is one): a round of the loop
  that ends with \<open>self.knowledge == test\<close> has changed nothing at all, so the sentences of
  \<open>knowledge\<close> are the same by value as before the round; and in the state the loop returns,
  and so in the state \<open>add_knowledge\<close> returns, one more round leaves the whole state as it
  is (\<open>knowledge\<close>, \<open>safes\<close> and \<open>mines\<close> included) and is again a round that breaks.
\<close>

theorem propagation_fixed_point:
  assumes "wf_ai e"
  shows "(\<forall>e'. knowledge_pass e = Inr (e', True) \<longrightarrow> e' = e) \<and>
         (\<forall>e'. propagate e = Some (Inr e') \<longrightarrow> knowledge_pass e' = Inr (e', True)) \<and>
         (\<forall>c cnt e'. add_knowledge e c cnt = Some (Inr e') \<longrightarrow>
                       knowledge_pass e' = Inr (e', True))"
proof -
  from knowledge_pass_wf [OF assms, of "{}"] have "\<forall>e'. knowledge_pass e = Inr (e', True) \<longrightarrow> e' = e"
    by (metis Inr_inject prod.inject)
  moreover from propagate_wf [OF assms, of "{}"]
  have "\<forall>e'. propagate e = Some (Inr e') \<longrightarrow> knowledge_pass e' = Inr (e', True)"
    by auto
  moreover have "knowledge_pass e' = Inr (e', True)"
    if "add_knowledge e c cnt = Some (Inr e')" for c cnt e'
    using add_knowledge_wf [OF assms, of c cnt "{}"] that by auto
  ultimately show ?thesis by simp
qed

lemma guarded_separated: "guarded e \<Longrightarrow> wf_ai e \<and> separated e"
proof (induction rule: guarded.induct)
  case (init h w)
  have "separated (init_ai h w)" by (simp add: separated_def init_ai_def)
  with init_wf show ?case by simp
next
  case (mark_mine e c)
  then show ?case using shrinks_mark_mine shrinks_wf separated_mark_mine by blast
next
  case (mark_safe e c)
  then show ?case using shrinks_mark_safe shrinks_wf separated_mark_safe by blast
next
  case (add_knowledge e c cnt e')
  with add_knowledge_wf [of e c cnt "{}"] show ?case by simp
qed

section \<open>A worked example of subset inference\<close>

lemmas ex_simps = ex_A_def ex_B_def ex_N_def ex_state_def knowledge_pass_def mark_all_def
  mark_sentence_def known_safes_def known_mines_def infer_outer.simps infer_inner.simps
  infer_body_def Let_def set_iter_def mark_mine_def mark_safe_def for_knowledge_def
  sentence_mark_mine_def sentence_mark_safe_def

lemma ex_pass1:
  "knowledge_pass (ex_state e [0, 1] [ex_A, ex_B] ms) =
     Inr (ex_state e [0, 2] [ex_A, ex_B, ex_N] ms, False)"
  by (simp add: ex_simps)

lemma ex_pass2:
  "knowledge_pass (ex_state e [0, 2] [ex_A, ex_B, ex_N] ms) =
     Inr (ex_state e [0] [ex_A, ex_B, ex_E] (insert (0, 2) ms), False)"
  by (simp add: ex_simps ex_E_def)

lemma ex_pass3:
  "knowledge_pass (ex_state e [0] [ex_A, ex_B, ex_E] ms) =
     Inr (ex_state e [0] [ex_A, ex_B, ex_E] ms, True)"
  by (simp add: ex_simps ex_E_def)

lemma ex_propagate:
  "propagate (ex_state e [0, 1] [ex_A, ex_B] ms) =
     Some (Inr (ex_state e [0] [ex_A, ex_B, ex_E] (insert (0, 2) ms)))"
  apply (subst propagate.simps)
  apply (simp only: ex_pass1 sum.case fst_conv snd_conv if_False)
  apply (subst propagate.simps)
  apply (simp only: ex_pass2 sum.case fst_conv snd_conv if_False)
  apply (subst propagate.simps)
  apply (simp only: ex_pass3 sum.case fst_conv snd_conv if_True)
  done

text \<open>
  Claim C6. Let \<open>knowledge\<close> hold \<open>A = {(0,0), (0,1)} = 1\<close> and \<open>B = {(0,0), (0,1), (0,2)} = 2\<close>,
  whatever \<open>moves_made\<close>, \<open>safes\<close> and \<open>mines\<close> are. The first round of the loop replaces \<open>B\<close>
  by the derived sentence \<open>{(0,2)} = 1\<close> and does not break; the loop returns with \<open>A\<close> as
  the only sentence left, with \<open>(0,2)\<close> added to \<open>mines\<close> and with \<open>safes\<close> and \<open>moves_made\<close>
  as they were.
\<close>

theorem subset_inference_example:
  "\<exists>e1 e2.
     knowledge_pass (ex_state e [0, 1] [ex_A, ex_B] (mines e)) = Inr (e1, False) \<and>
     sentences e1 = [ex_A, ex_N] \<and> mines e1 = mines e \<and>
     propagate (ex_state e [0, 1] [ex_A, ex_B] (mines e)) = Some (Inr e2) \<and>
     sentences e2 = [ex_A] \<and> mines e2 = insert (0, 2) (mines e) \<and>
     safes e2 = safes e \<and> moves_made e2 = moves_made e"
proof -
  let ?e1 = "ex_state e [0, 2] [ex_A, ex_B, ex_N] (mines e)"
  let ?e2 = "ex_state e [0] [ex_A, ex_B, ex_E] (insert (0, 2) (mines e))"
  have "sentences ?e1 = [ex_A, ex_N]" "mines ?e1 = mines e"
    "sentences ?e2 = [ex_A]" "mines ?e2 = insert (0, 2) (mines e)"
    "safes ?e2 = safes e" "moves_made ?e2 = moves_made e"
    by (simp_all add: sentences_def ex_state_def)
  with ex_pass1 [of e "mines e"] ex_propagate [of e "mines e"] show ?thesis by blast
qed

lemma ex_wf: "wf_ai (ex_state e [0, 1] [ex_A, ex_B] ms)"
  by (simp add: wf_ai_def ex_state_def ex_A_def ex_B_def less_Suc_eq numeral_2_eq_2)

subsection \<open>The theorems above at concrete inputs\<close>

theorem propagation_fixed_point_witness:
  "wf_ai (ex_state (init_ai 1 3) [0, 1] [ex_A, ex_B] {}) \<and>
   propagate (ex_state (init_ai 1 3) [0, 1] [ex_A, ex_B] {}) =
     Some (Inr (ex_state (init_ai 1 3) [0] [ex_A, ex_B, ex_E] {(0, 2)})) \<and>
   knowledge_pass (ex_state (init_ai 1 3) [0] [ex_A, ex_B, ex_E] {(0, 2)}) =
     Inr (ex_state (init_ai 1 3) [0] [ex_A, ex_B, ex_E] {(0, 2)}, True)"
  using propagation_fixed_point [OF ex_wf [of "init_ai 1 3" "{}"]]
    ex_propagate [of "init_ai 1 3" "{}"] ex_wf [of "init_ai 1 3" "{}"]
  by simp

theorem propagation_terminates_witness:
  "reachable (mark_mine (init_ai 1 3) (0, 2)) \<and>
   (\<exists>e'. propagate (add_sentence (mark_mine (init_ai 1 3) (0, 2)) (0, 0) 1) = Some (Inr e'))"
  using propagation_terminates [OF reachable.mark_mine [OF reachable.init], of 1 3 "(0, 2)" "(0, 0)" 1]
    reachable.mark_mine [OF reachable.init, of 1 3 "(0, 2)"]
  by simp

lemma ex_nearby: "nearby_mines 1 3 {(0, 1)} (0, 0) = 1" "nearby_mines 1 3 {(0, 1)} (0, 2) = 1"
  by (simp_all add: nearby_mines_def neighbourhood_def upto.simps)

theorem add_knowledge_sound_witness:
  "\<exists>e'. run (init_ai 1 3) [((0, 0), 1), ((0, 2), 1)] = Some (Inr e') \<and>
        mines e' \<subseteq> {(0, 1)} \<and> safes e' \<inter> {(0, 1)} = {}"
  using add_knowledge_sound [of "[((0, 0), 1), ((0, 2), 1)]" "{(0, 1)}" 1 3]
  by (simp add: ex_nearby)

section \<open>Disjointness of \<open>safes\<close> and \<open>mines\<close>\<close>

text \<open>
  Claim C3, as amended. In every state reached by \<open>mark_mine\<close>, \<open>mark_safe\<close> and
  \<open>add_knowledge\<close> calls of which none marks a recorded safe cell as a mine or a recorded mine
  as safe, \<open>safes\<close> and \<open>mines\<close> are disjoint: the deductions of \<open>add_knowledge\<close> never put a
  cell in both sets, whatever counts it is given. (Without the condition the sets can overlap:
  \<open>mark_safe\<close> and \<open>mark_mine\<close> add the cell to their set without looking at the other.)
\<close>

theorem safes_mines_disjoint:
  assumes "guarded e"
  shows "safes e \<inter> mines e = {}"
  using guarded_separated [OF assms] by (simp add: separated_def)

theorem safes_mines_disjoint_witness:
  "guarded (mark_mine (mark_safe (init_ai 1 2) (0, 0)) (0, 1)) \<and>
   safes (mark_mine (mark_safe (init_ai 1 2) (0, 0)) (0, 1)) \<inter>
     mines (mark_mine (mark_safe (init_ai 1 2) (0, 0)) (0, 1)) = {}"
proof -
  have "guarded (mark_mine (mark_safe (init_ai 1 2) (0, 0)) (0, 1))"
    by (intro guarded.mark_mine guarded.mark_safe guarded.init) (simp_all add: init_ai_def)
  with safes_mines_disjoint [OF this] show ?thesis by simp
qed

theorem safes_mines_overlap_counterexample:
  "reachable (mark_mine (mark_safe (init_ai 1 1) (0, 0)) (0, 0)) \<and>
   safes (mark_mine (mark_safe (init_ai 1 1) (0, 0)) (0, 0)) \<inter>
     mines (mark_mine (mark_safe (init_ai 1 1) (0, 0)) (0, 0)) \<noteq> {}"
proof -
  have "reachable (mark_mine (mark_safe (init_ai 1 1) (0, 0)) (0, 0))"
    by (intro reachable.mark_mine reachable.mark_safe reachable.init)
  then show ?thesis by simp
qed

section \<open>Ingesting an observation\<close>

lemma length_filter_neighbourhood:
  "length (filter P (neighbourhood c)) = card {n \<in> set (neighbourhood c). P n}"
  using distinct_card [OF distinct_filter [OF neighbourhood_distinct, of P c]] by simp

text \<open>
  Claim C5, as amended. When \<open>add_knowledge(cell, count)\<close> reaches its loop, \<open>cell\<close> is in
  \<open>moves_made\<close> and in \<open>safes\<close> and has been removed from the old sentences by \<open>mark_safe\<close>;
  one new sentence has been appended. Its cells are the in-bounds neighbours that are in none
  of \<open>moves_made\<close>, \<open>safes\<close> and \<open>mines\<close>. Its count is the given count minus the number of
  in-bounds neighbours that are known mines and are in neither \<open>moves_made\<close> nor \<open>safes\<close>: a
  neighbour in \<open>moves_made\<close> or \<open>safes\<close> is skipped before \<open>mines\<close> is looked at. When \<open>mines\<close>
  is disjoint from \<open>moves_made\<close> and \<open>safes\<close>, that is the number of all in-bounds neighbours
  known to be mines.
\<close>

theorem add_sentence_result:
  fixes e c cnt
  defines "e' \<equiv> add_sentence e c cnt"
  defines "new \<equiv> store e' ! last (knowledge e')"
  defines "nb \<equiv> neighbours (height e) (width e) c"
  shows "moves_made e' = insert c (moves_made e) \<and> safes e' = insert c (safes e) \<and>
         mines e' = mines e \<and>
         knowledge e' = knowledge e @ [length (store e)] \<and>
         take (length (store e)) (store e') = store (mark_safe e c) \<and>
         length (store e') = Suc (length (store e)) \<and>
         cells new = {n \<in> nb. n \<notin> moves_made e' \<and> n \<notin> safes e' \<and> n \<notin> mines e'} \<and>
         count new = cnt - int (card {n \<in> nb. n \<notin> moves_made e' \<and> n \<notin> safes e' \<and> n \<in> mines e'}) \<and>
         (mines e \<inter> (moves_made e \<union> safes e) = {} \<longrightarrow>
            count new = cnt - int (card (nb \<inter> mines e)))"
proof -
  let ?e2 = "mark_safe (e\<lparr>moves_made := insert c (moves_made e)\<rparr>) c"
  have new: "new = \<lparr>cells = set (filter (\<lambda>ij. unresolved ?e2 c ij \<and> ij \<notin> mines ?e2) (neighbourhood c)),
       count = cnt - int (length (filter (\<lambda>ij. unresolved ?e2 c ij \<and> ij \<in> mines ?e2)
                                   (neighbourhood c)))\<rparr>"
    unfolding new_def e'_def using add_sentence_new [of e c cnt] by (simp add: Let_def del: set_filter)
  have s1: "{n \<in> set (neighbourhood c). unresolved ?e2 c n \<and> n \<notin> mines ?e2} =
      {n \<in> nb. n \<notin> moves_made e' \<and> n \<notin> safes e' \<and> n \<notin> mines e'}"
    by (auto simp: neighbourhood_set unresolved_def neighbours_def nb_def e'_def)
  have s2: "{n \<in> set (neighbourhood c). unresolved ?e2 c n \<and> n \<in> mines ?e2} =
      {n \<in> nb. n \<notin> moves_made e' \<and> n \<notin> safes e' \<and> n \<in> mines e'}"
    by (auto simp: neighbourhood_set unresolved_def neighbours_def nb_def e'_def)
  have cells: "cells new = {n \<in> nb. n \<notin> moves_made e' \<and> n \<notin> safes e' \<and> n \<notin> mines e'}"
    using s1 by (simp add: new)
  have cnt: "count new = cnt - int (card {n \<in> nb. n \<notin> moves_made e' \<and> n \<notin> safes e' \<and> n \<in> mines e'})"
    using s2 by (simp add: new length_filter_neighbourhood)
  have dis: "count new = cnt - int (card (nb \<inter> mines e))"
    if "mines e \<inter> (moves_made e \<union> safes e) = {}"
  proof -
    have "c \<notin> nb" by (simp add: nb_def neighbours_def)
    with that have "{n \<in> nb. n \<notin> moves_made e' \<and> n \<notin> safes e' \<and> n \<in> mines e'} = nb \<inter> mines e"
      by (auto simp: e'_def)
    with cnt show ?thesis by simp
  qed
  have old: "take (length (store e)) (store e') = store (mark_safe e c)"
    by (rule nth_equalityI) (simp_all add: e'_def add_sentence_old)
  show ?thesis
    using cells cnt dis old by (simp add: e'_def)
qed

theorem add_sentence_result_witness:
  "mines (mark_mine (init_ai 1 3) (0, 1)) \<inter>
     (moves_made (mark_mine (init_ai 1 3) (0, 1)) \<union> safes (mark_mine (init_ai 1 3) (0, 1))) = {} \<and>
   count (store (add_sentence (mark_mine (init_ai 1 3) (0, 1)) (0, 0) 1) !
            last (knowledge (add_sentence (mark_mine (init_ai 1 3) (0, 1)) (0, 0) 1))) =
     1 - int (card (neighbours 1 3 (0, 0) \<inter> mines (mark_mine (init_ai 1 3) (0, 1))))"
  using add_sentence_result [of "mark_mine (init_ai 1 3) (0, 1)" "(0, 0)" 1]
  by (simp add: init_ai_def)

text \<open>
  The claim as stated fails when a neighbour is recorded both as safe and as a mine: after
  \<open>mark_safe((0,1))\<close> and \<open>mark_mine((0,1))\<close> on a 1 x 2 board, \<open>add_knowledge((0,0), 1)\<close> skips
  the neighbour \<open>(0,1)\<close> and keeps the count 1, although one in-bounds neighbour is a known
  mine.
\<close>

theorem add_sentence_count_counterexample:
  "reachable (mark_mine (mark_safe (init_ai 1 2) (0, 1)) (0, 1)) \<and>
   count (store (add_sentence (mark_mine (mark_safe (init_ai 1 2) (0, 1)) (0, 1)) (0, 0) 1) !
            last (knowledge (add_sentence (mark_mine (mark_safe (init_ai 1 2) (0, 1)) (0, 1)) (0, 0) 1)))
     \<noteq> 1 - int (card (neighbours 1 2 (0, 0) \<inter>
                        mines (mark_mine (mark_safe (init_ai 1 2) (0, 1)) (0, 1))))"
proof -
  let ?e = "mark_mine (mark_safe (init_ai 1 2) (0, 1)) (0, 1)"
  have r: "reachable ?e"
    by (intro reachable.mark_mine reachable.mark_safe reachable.init)
  have "neighbours 1 2 (0, 0) \<inter> mines ?e = {(0, 1)}"
    by (auto simp: neighbours_def init_ai_def)
  then have c: "card (neighbours 1 2 (0, 0) \<inter> mines ?e) = 1" by simp
  have "count (store (add_sentence ?e (0, 0) 1) ! last (knowledge (add_sentence ?e (0, 0) 1))) = 1"
    by (simp add: add_sentence_def near_by_step_def neighbourhood_def upto.simps init_ai_def
        mark_safe_def mark_mine_def for_knowledge_def Let_def)
  with r c show ?thesis by simp
qed

section \<open>The move queries\<close>

text \<open>
  Claim C8. Whatever the order in which Python enumerates the set \<open>safes\<close>:
  \<open>make_safe_move\<close> returns a cell that is in \<open>safes\<close> and not in \<open>moves_made\<close> when there is
  one, returns \<open>None\<close> when there is none (also when \<open>safes\<close> is not empty), and leaves the
  state as it is.
\<close>

theorem make_safe_move_result:
  assumes "set (iter (safes e)) = safes e"
  shows "(safes e - moves_made e \<noteq> {} \<longrightarrow>
            (\<exists>c. fst (make_safe_move iter e) = Some c \<and> c \<in> safes e \<and> c \<notin> moves_made e)) \<and>
         (safes e - moves_made e = {} \<longrightarrow> fst (make_safe_move iter e) = None) \<and>
         snd (make_safe_move iter e) = e"
proof -
  have some: "\<exists>c. find (\<lambda>c. c \<notin> moves_made e) (iter (safes e)) = Some c \<and> c \<in> safes e \<and> c \<notin> moves_made e"
    if "safes e - moves_made e \<noteq> {}"
  proof (cases "find (\<lambda>c. c \<notin> moves_made e) (iter (safes e))")
    case None
    then have "\<And>c. c \<in> set (iter (safes e)) \<Longrightarrow> c \<in> moves_made e"
      unfolding find_None_iff by blast
    with assms that show ?thesis by blast
  next
    case (Some c)
    then have "c \<in> set (iter (safes e))" "c \<notin> moves_made e"
      by (auto simp: find_Some_iff)
    with assms Some show ?thesis by simp
  qed
  have none: "find (\<lambda>c. c \<notin> moves_made e) (iter (safes e)) = None"
    if "safes e - moves_made e = {}"
    using that assms by (auto simp: find_None_iff)
  show ?thesis
    using some none by (auto simp: make_safe_move_def)
qed

theorem make_safe_move_result_witness:
  "fst (make_safe_move set_iter ((init_ai 1 3)\<lparr>safes := {(0, 0), (0, 1)}, moves_made := {(0, 0)}\<rparr>))
     = Some (0, 1) \<and>
   fst (make_safe_move set_iter ((init_ai 1 3)\<lparr>safes := {(0, 0)}, moves_made := {(0, 0)}\<rparr>)) = None"
  using make_safe_move_result [of set_iter "(init_ai 1 3)\<lparr>safes := {(0, 0), (0, 1)}, moves_made := {(0, 0)}\<rparr>"]
    make_safe_move_result [of set_iter "(init_ai 1 3)\<lparr>safes := {(0, 0)}, moves_made := {(0, 0)}\<rparr>"]
  by auto

lemma candidates_inner:
  "fold (candidates_step e i) js S =
     S \<union> {(i, j) | j. j \<in> set js \<and> (i, j) \<notin> moves_made e \<and> (i, j) \<notin> mines e}"
  by (induction js arbitrary: S) (auto simp: candidates_step_def)

lemma candidates_outer:
  "fold (\<lambda>i. fold (candidates_step e i) js) is S =
     S \<union> {(i, j) | i j. i \<in> set is \<and> j \<in> set js \<and> (i, j) \<notin> moves_made e \<and> (i, j) \<notin> mines e}"
proof (induction "is" arbitrary: S)
  case Nil
  then show ?case by simp
next
  case (Cons i "is")
  have "fold (\<lambda>i. fold (candidates_step e i) js) (i # is) S =
      fold (\<lambda>i. fold (candidates_step e i) js) is (fold (candidates_step e i) js S)"
    by simp
  also have "\<dots> = fold (candidates_step e i) js S \<union>
      {(i, j) | i j. i \<in> set is \<and> j \<in> set js \<and> (i, j) \<notin> moves_made e \<and> (i, j) \<notin> mines e}"
    by (rule Cons.IH)
  also have "\<dots> = S \<union>
      {(i', j) | i' j. i' \<in> set (i # is) \<and> j \<in> set js \<and> (i', j) \<notin> moves_made e \<and> (i', j) \<notin> mines e}"
    unfolding candidates_inner by auto
  finally show ?case .
qed

lemma candidates_loop:
  "fold (\<lambda>i. fold (candidates_step e i) [0 .. width e - 1]) [0 .. height e - 1] {} = candidates e"
  unfolding candidates_outer by (auto simp: candidates_def)

text \<open>
  Claim C10. \<open>make_random_move\<close> changes the state: it sets the attribute \<open>self.random\<close> to the
  candidate set and nothing else, so \<open>moves_made\<close>, \<open>safes\<close>, \<open>mines\<close> and \<open>knowledge\<close> stay as
  they are. Whatever tuple Python builds from the set and whatever element \<open>random.choice\<close>
  draws from it, the returned cell is a candidate, and \<open>None\<close> is returned exactly when there
  is no candidate.
\<close>

theorem make_random_move_result:
  assumes "set (iter (candidates e)) = candidates e"
    and "iter (candidates e) \<noteq> [] \<longrightarrow> choice (iter (candidates e)) \<in> set (iter (candidates e))"
  shows "snd (make_random_move iter choice e) = e\<lparr>random_attr := Some (candidates e)\<rparr> \<and>
         moves_made (snd (make_random_move iter choice e)) = moves_made e \<and>
         safes (snd (make_random_move iter choice e)) = safes e \<and>
         mines (snd (make_random_move iter choice e)) = mines e \<and>
         knowledge (snd (make_random_move iter choice e)) = knowledge e \<and>
         store (snd (make_random_move iter choice e)) = store e \<and>
         (\<forall>c. fst (make_random_move iter choice e) = Some c \<longrightarrow> c \<in> candidates e) \<and>
         (fst (make_random_move iter choice e) = None \<longleftrightarrow> candidates e = {})"
proof (cases "candidates e = {}")
  case True
  then show ?thesis by (simp add: make_random_move_def candidates_loop Let_def)
next
  case False
  with assms(1) have "iter (candidates e) \<noteq> []" by auto
  with assms have "choice (iter (candidates e)) \<in> candidates e" by simp
  with False show ?thesis by (simp add: make_random_move_def candidates_loop Let_def)
qed

lemma ex_candidates: "candidates ((init_ai 1 2)\<lparr>moves_made := {(0, 0)}\<rparr>) = {(0, 1)}"
  by (auto simp: candidates_def init_ai_def)

theorem make_random_move_result_witness:
  "make_random_move set_iter hd ((init_ai 1 2)\<lparr>moves_made := {(0, 0)}\<rparr>) =
     (Some (0, 1), (init_ai 1 2)\<lparr>moves_made := {(0, 0)}, random_attr := Some {(0, 1)}\<rparr>)"
proof -
  let ?e = "(init_ai 1 2)\<lparr>moves_made := {(0, 0)}\<rparr>"
  have "set (set_iter (candidates ?e)) = candidates ?e"
    by (simp add: ex_candidates)
  moreover have "set_iter (candidates ?e) \<noteq> [] \<longrightarrow> hd (set_iter (candidates ?e)) \<in> set (set_iter (candidates ?e))"
    by simp
  ultimately have r: "snd (make_random_move set_iter hd ?e) = ?e\<lparr>random_attr := Some (candidates ?e)\<rparr>"
    "\<forall>c. fst (make_random_move set_iter hd ?e) = Some c \<longrightarrow> c \<in> candidates ?e"
    "fst (make_random_move set_iter hd ?e) = None \<longleftrightarrow> candidates ?e = {}"
    using make_random_move_result [of set_iter ?e hd] by blast+
  from r(2,3) have "fst (make_random_move set_iter hd ?e) = Some (0, 1)"
    unfolding ex_candidates by (cases "fst (make_random_move set_iter hd ?e)") auto
  with r(1) show ?thesis
    unfolding ex_candidates by (metis prod.collapse)
qed

end
